theory Spec2Isabelle
  imports Complex_Main "HOL-Library.Multiset"
begin

section \<open>Geometry: three-dimensional vectors\<close>

text \<open>
  \<^verbatim>\<open>Eigen::Vector3d\<close> holds three doubles.  Arithmetic is taken to be exact: a
  coordinate is a real number, and the vector operations used by the welder (sum,
  multiplication and division by a scalar) are the componentwise ones.
\<close>

datatype Vector3d = Vector3d (vx: real) (vy: real) (vz: real)

instantiation Vector3d :: real_vector
begin

definition zero_Vector3d :: Vector3d where
  "zero_Vector3d = Vector3d 0 0 0"

definition plus_Vector3d :: "Vector3d \<Rightarrow> Vector3d \<Rightarrow> Vector3d" where
  "plus_Vector3d a b = Vector3d (vx a + vx b) (vy a + vy b) (vz a + vz b)"

definition minus_Vector3d :: "Vector3d \<Rightarrow> Vector3d \<Rightarrow> Vector3d" where
  "minus_Vector3d a b = Vector3d (vx a - vx b) (vy a - vy b) (vz a - vz b)"

definition uminus_Vector3d :: "Vector3d \<Rightarrow> Vector3d" where
  "uminus_Vector3d a = Vector3d (- vx a) (- vy a) (- vz a)"

definition scaleR_Vector3d :: "real \<Rightarrow> Vector3d \<Rightarrow> Vector3d" where
  "scaleR_Vector3d k a = Vector3d (k * vx a) (k * vy a) (k * vz a)"

instance
proof
  fix a b c :: Vector3d and r s :: real
  show "a + b + c = a + (b + c)" by (simp add: plus_Vector3d_def)
  show "a + b = b + a" by (simp add: plus_Vector3d_def)
  show "0 + a = a" by (simp add: plus_Vector3d_def zero_Vector3d_def)
  show "- a + a = 0" by (simp add: plus_Vector3d_def zero_Vector3d_def uminus_Vector3d_def)
  show "a - b = a + - b" by (simp add: plus_Vector3d_def minus_Vector3d_def uminus_Vector3d_def)
  show "r *\<^sub>R (a + b) = r *\<^sub>R a + r *\<^sub>R b"
    by (simp add: plus_Vector3d_def scaleR_Vector3d_def algebra_simps)
  show "(r + s) *\<^sub>R a = r *\<^sub>R a + s *\<^sub>R a"
    by (simp add: plus_Vector3d_def scaleR_Vector3d_def algebra_simps)
  show "r *\<^sub>R s *\<^sub>R a = (r * s) *\<^sub>R a" by (simp add: scaleR_Vector3d_def)
  show "1 *\<^sub>R a = a" by (simp add: scaleR_Vector3d_def)
qed

end

section \<open>Mesh container\<close>

text \<open>
  The fields of \<^verbatim>\<open>TriangleMesh\<close> and of its base \<^verbatim>\<open>MeshBase\<close>.  Vertex ids are
  zero-based positions in \<open>vertices\<close>; a triangle is a triple of vertex ids.
\<close>

record TriangleMesh =
  vertices :: "Vector3d list"
  vertex_normals :: "Vector3d list"
  vertex_colors :: "Vector3d list"
  triangles :: "(nat \<times> nat \<times> nat) list"
  triangle_normals :: "Vector3d list"
  adjacency_list :: "nat set list"

text \<open>
  Reading or writing a \<^verbatim>\<open>std::vector\<close> outside its range is undefined behaviour in
  the source; the model reports it as the error \<open>OutOfBounds\<close>.  A failed
  \<^verbatim>\<open>assert\<close> aborts the program: \<open>AssertionFailed\<close>.  A work-shared loop
  whose \<^verbatim>\<open>schedule\<close> clause has the chunk size \<open>0\<close> is not a conforming OpenMP program
  (the chunk size must be positive; the dynamic schedule of libgomp then hands out empty
  chunks for ever): \<open>ZeroChunkSize\<close>.  The radius search of the model takes a real
  radius; a \<^verbatim>\<open>double\<close> that is not a number or is infinite is no radius for it:
  \<open>NonFiniteRadius\<close>.
\<close>

datatype error = OutOfBounds | AssertionFailed | ZeroChunkSize | NonFiniteRadius

section \<open>Reducer: \<^verbatim>\<open>TriangleMeshPWeld::reduce\<close>\<close>

record reduce_state =
  pid2ccid :: "nat list"
  new_vertices :: "Vector3d list"
  n_clusters :: nat
  num_cluster_members_vec :: "nat list"

text \<open>One iteration of the loop \<^verbatim>\<open>for (int i=0; i < num_vertices; i++)\<close>.\<close>

definition reduce_body ::
  "Vector3d list \<Rightarrow> nat list \<Rightarrow> nat \<Rightarrow> reduce_state \<Rightarrow> error + reduce_state" where
  "reduce_body vs cp_vec i st =
    (if length cp_vec \<le> i \<or> length (pid2ccid st) \<le> i \<or> length vs \<le> i
     then Inl OutOfBounds
     else if cp_vec ! i = i then
       Inr (st\<lparr>pid2ccid := (pid2ccid st)[i := n_clusters st],
               n_clusters := n_clusters st + 1,
               new_vertices := new_vertices st @ [vs ! i]\<rparr>)
     else if length (pid2ccid st) \<le> cp_vec ! i then Inl OutOfBounds
     else
       let ccid = pid2ccid st ! (cp_vec ! i) in
       if length (num_cluster_members_vec st) \<le> ccid \<or> length (new_vertices st) \<le> ccid
       then Inl OutOfBounds
       else
         let previous_cluster_size = num_cluster_members_vec st ! ccid in
         Inr (st\<lparr>num_cluster_members_vec :=
                   (num_cluster_members_vec st)[ccid := previous_cluster_size + 1],
                 new_vertices := (new_vertices st)[ccid :=
                   (vs ! i + real previous_cluster_size *\<^sub>R (new_vertices st ! ccid))
                     /\<^sub>R (real previous_cluster_size + 1)],
                 pid2ccid := (pid2ccid st)[i := ccid]\<rparr>))"

fun reduce_loop ::
  "Vector3d list \<Rightarrow> nat list \<Rightarrow> nat list \<Rightarrow> reduce_state \<Rightarrow> error + reduce_state" where
  "reduce_loop vs cp_vec [] st = Inr st"
| "reduce_loop vs cp_vec (i # rest) st =
    (case reduce_body vs cp_vec i st of
       Inl e \<Rightarrow> Inl e
     | Inr st' \<Rightarrow> reduce_loop vs cp_vec rest st')"

text \<open>
  \<open>reduce vs pid2ccid new_vertices cp_vec num_vertices\<close>: the first argument is
  the \<open>vertices\<close> field of the mesh the method is called on; \<open>pid2ccid\<close> and
  \<open>new_vertices\<close> are the two reference parameters, returned updated.
\<close>

definition reduce ::
  "Vector3d list \<Rightarrow> nat list \<Rightarrow> Vector3d list \<Rightarrow> nat list \<Rightarrow> nat
    \<Rightarrow> error + (nat list \<times> Vector3d list)" where
  "reduce vs pid2ccid0 new_vertices0 cp_vec num_vertices =
    (case reduce_loop vs cp_vec [0..<num_vertices]
            \<lparr>pid2ccid = pid2ccid0, new_vertices = new_vertices0, n_clusters = 0,
             num_cluster_members_vec = replicate num_vertices 1\<rparr> of
       Inl e \<Rightarrow> Inl e
     | Inr st \<Rightarrow> Inr (pid2ccid st, new_vertices st))"

text \<open>The original ids that a renumbering map sends to the new id \<open>c\<close>.\<close>

definition members :: "nat list \<Rightarrow> nat \<Rightarrow> nat \<Rightarrow> nat set" where
  "members p2c k c = {i. i < k \<and> p2c ! i = c}"

text \<open>The centroids (self-parents) among the first \<open>k\<close> ids.\<close>

definition centroids :: "nat list \<Rightarrow> nat \<Rightarrow> nat set" where
  "centroids cp_vec k = {i. i < k \<and> cp_vec ! i = i}"

subsection \<open>The reducer computes cluster means\<close>

lemma reduce_loop_append:
  "reduce_loop vs cp (xs @ ys) st =
    (case reduce_loop vs cp xs st of Inl e \<Rightarrow> Inl e | Inr st' \<Rightarrow> reduce_loop vs cp ys st')"
  by (induction xs arbitrary: st) (auto split: sum.splits)

lemma finite_members [simp]: "finite (members p k c)"
  by (simp add: members_def)

lemma finite_centroids [simp]: "finite (centroids cp k)"
  by (simp add: centroids_def)

lemma members_Suc:
  "members p (Suc k) c = (if p ! k = c then insert k (members p k c) else members p k c)"
  by (auto simp: members_def less_Suc_eq)

lemma centroids_Suc:
  "centroids cp (Suc k) = (if cp ! k = k then insert k (centroids cp k) else centroids cp k)"
  by (auto simp: centroids_def less_Suc_eq)

lemma members_update [simp]: "members (p[k := x]) k c = members p k c"
  by (auto simp: members_def)

lemma not_in_members [simp]: "k \<notin> members p k c"
  by (simp add: members_def)

lemma not_in_centroids [simp]: "k \<notin> centroids cp k"
  by (simp add: centroids_def)

lemma card_centroids_le: "card (centroids cp k) \<le> k"
proof -
  have "centroids cp k \<subseteq> {..<k}" by (auto simp: centroids_def)
  then have "card (centroids cp k) \<le> card {..<k}" by (intro card_mono) auto
  then show ?thesis by simp
qed

lemma centroids_mono: "i \<le> k \<Longrightarrow> centroids cp i \<subseteq> centroids cp k"
  by (auto simp: centroids_def)

text \<open>
  The loop invariant of \<open>reduce\<close> after the ids below \<open>k\<close> have been processed, for a
  parent array with \<open>cp ! i \<le> i\<close>: every processed id has a new id in range, a
  follower has its parent's new id, a centroid's new id is the number of centroids before
  it, and each new vertex is the mean of the processed ids mapped to it.
\<close>

definition reduce_inv :: "Vector3d list \<Rightarrow> nat list \<Rightarrow> nat \<Rightarrow> nat \<Rightarrow> reduce_state \<Rightarrow> bool" where
  "reduce_inv vs cp n k st \<longleftrightarrow>
     length (pid2ccid st) = n \<and> length (num_cluster_members_vec st) = n \<and>
     n_clusters st = length (new_vertices st) \<and>
     length (new_vertices st) = card (centroids cp k) \<and>
     (\<forall>i<k. pid2ccid st ! i < length (new_vertices st)) \<and>
     (\<forall>i<k. pid2ccid st ! (cp ! i) = pid2ccid st ! i) \<and>
     (\<forall>i<k. cp ! i = i \<longrightarrow> pid2ccid st ! i = card (centroids cp i)) \<and>
     (\<forall>c. length (new_vertices st) \<le> c \<longrightarrow> c < n \<longrightarrow> num_cluster_members_vec st ! c = 1) \<and>
     (\<forall>c<length (new_vertices st).
        num_cluster_members_vec st ! c = card (members (pid2ccid st) k c) \<and>
        members (pid2ccid st) k c \<noteq> {} \<and>
        new_vertices st ! c =
          (\<Sum>i\<in>members (pid2ccid st) k c. vs ! i) /\<^sub>R real (card (members (pid2ccid st) k c)))"

lemma running_mean:
  fixes v S :: Vector3d
  assumes "0 < m"
  shows "(v + real m *\<^sub>R (S /\<^sub>R real m)) /\<^sub>R (real m + 1) = (v + S) /\<^sub>R real (Suc m)"
  using assms by (simp add: add.commute)

lemma reduce_inv_centroid:
  assumes len: "length cp = n" "length vs = n"
    and le: "\<forall>i<n. cp ! i \<le> i"
    and k: "k < n" and c: "cp ! k = k"
    and inv: "reduce_inv vs cp n k st"
  shows "\<exists>st'. reduce_body vs cp k st = Inr st' \<and> reduce_inv vs cp n (Suc k) st'"
proof -
  let ?p = "pid2ccid st" and ?nv = "new_vertices st" and ?m = "num_cluster_members_vec st"
  let ?L = "length ?nv"
  define st' where "st' = st\<lparr>pid2ccid := ?p[k := n_clusters st],
               n_clusters := n_clusters st + 1,
               new_vertices := ?nv @ [vs ! k]\<rparr>"
  from inv[unfolded reduce_inv_def] have lp: "length ?p = n" and lm: "length ?m = n" and nc: "n_clusters st = ?L"
    and L: "?L = card (centroids cp k)"
    and rng: "\<forall>i<k. ?p ! i < ?L"
    and par: "\<forall>i<k. ?p ! (cp ! i) = ?p ! i"
    and cen: "\<forall>i<k. cp ! i = i \<longrightarrow> ?p ! i = card (centroids cp i)"
    and one: "\<forall>c. ?L \<le> c \<longrightarrow> c < n \<longrightarrow> ?m ! c = 1"
    and mean: "\<forall>c<?L. ?m ! c = card (members ?p k c) \<and> members ?p k c \<noteq> {} \<and>
        ?nv ! c = (\<Sum>i\<in>members ?p k c. vs ! i) /\<^sub>R real (card (members ?p k c))"
    by blast+
  have Lk: "?L \<le> k" using L card_centroids_le[of cp k] by simp
  have body: "reduce_body vs cp k st = Inr st'"
    using len k c lp by (simp add: reduce_body_def st'_def)
  have p': "pid2ccid st' = ?p[k := ?L]" and nv': "new_vertices st' = ?nv @ [vs ! k]"
    and m': "num_cluster_members_vec st' = ?m" and nc': "n_clusters st' = ?L + 1"
    by (simp_all add: st'_def nc)
  have pk: "pid2ccid st' ! k = ?L" using lp k by (simp add: p')
  have pi: "\<And>i. i < k \<Longrightarrow> pid2ccid st' ! i = ?p ! i" by (simp add: p')
  have memL: "members (pid2ccid st') (Suc k) ?L = {k}"
  proof -
    have "members (pid2ccid st') k ?L = {}" using rng by (auto simp: members_def p')
    then show ?thesis by (simp add: members_Suc pk)
  qed
  have memc: "\<And>c. c < ?L \<Longrightarrow> members (pid2ccid st') (Suc k) c = members ?p k c"
    by (simp add: members_Suc pk) (simp add: p')
  have "reduce_inv vs cp n (Suc k) st'"
    unfolding reduce_inv_def
  proof (intro conjI allI impI)
    show "length (pid2ccid st') = n" by (simp add: p' lp)
    show "length (num_cluster_members_vec st') = n" by (simp add: m' lm)
    show "n_clusters st' = length (new_vertices st')" by (simp add: nc' nv')
    show "length (new_vertices st') = card (centroids cp (Suc k))"
      by (simp add: nv' centroids_Suc c L)
    show "pid2ccid st' ! i < length (new_vertices st')" if "i < Suc k" for i
      using that rng pk pi by (cases "i = k") (auto simp: nv' less_Suc_eq)
    show "pid2ccid st' ! (cp ! i) = pid2ccid st' ! i" if "i < Suc k" for i
    proof (cases "i = k")
      case True then show ?thesis using c by simp
    next
      case False
      then have ik: "i < k" using that by simp
      show ?thesis
      proof (cases "cp ! i = k")
        case True
        from ik k have "i < n" by simp
        with le have "cp ! i \<le> i" by blast
        with True ik have False by simp
        then show ?thesis ..
      next
        case F2: False
        then have "pid2ccid st' ! (cp ! i) = ?p ! (cp ! i)" by (simp add: p')
        then show ?thesis using par ik pi by simp
      qed
    qed
    show "pid2ccid st' ! i = card (centroids cp i)" if "i < Suc k" "cp ! i = i" for i
      using that cen pk pi L by (cases "i = k") (auto simp: less_Suc_eq)
    show "num_cluster_members_vec st' ! c' = 1"
      if "length (new_vertices st') \<le> c'" "c' < n" for c'
      using that one by (simp add: nv' m')
    show "num_cluster_members_vec st' ! c' = card (members (pid2ccid st') (Suc k) c')"
      if "c' < length (new_vertices st')" for c'
    proof (cases "c' = ?L")
      case True
      then show ?thesis using one Lk k by (simp add: memL m')
    next
      case False
      then have "c' < ?L" using that by (simp add: nv')
      then show ?thesis using mean by (simp add: memc m')
    qed
    show "members (pid2ccid st') (Suc k) c' \<noteq> {}" if "c' < length (new_vertices st')" for c'
    proof (cases "c' = ?L")
      case True then show ?thesis by (simp add: memL)
    next
      case False
      then have "c' < ?L" using that by (simp add: nv')
      then show ?thesis using mean by (simp add: memc)
    qed
    show "new_vertices st' ! c' =
          (\<Sum>i\<in>members (pid2ccid st') (Suc k) c'. vs ! i)
            /\<^sub>R real (card (members (pid2ccid st') (Suc k) c'))"
      if "c' < length (new_vertices st')" for c'
    proof (cases "c' = ?L")
      case True then show ?thesis by (simp add: memL nv')
    next
      case False
      then have "c' < ?L" using that by (simp add: nv')
      then show ?thesis using mean by (simp add: memc nv' nth_append)
    qed
  qed
  with body show ?thesis by blast
qed


lemma reduce_inv_follower:
  assumes len: "length cp = n" "length vs = n"
    and le: "\<forall>i<n. cp ! i \<le> i"
    and k: "k < n" and c: "cp ! k \<noteq> k"
    and inv: "reduce_inv vs cp n k st"
  shows "\<exists>st'. reduce_body vs cp k st = Inr st' \<and> reduce_inv vs cp n (Suc k) st'"
proof -
  let ?p = "pid2ccid st" and ?nv = "new_vertices st" and ?m = "num_cluster_members_vec st"
  let ?L = "length ?nv"
  from inv[unfolded reduce_inv_def] have lp: "length ?p = n" and lm: "length ?m = n"
    and nc: "n_clusters st = ?L"
    and L: "?L = card (centroids cp k)"
    and rng: "\<forall>i<k. ?p ! i < ?L"
    and par: "\<forall>i<k. ?p ! (cp ! i) = ?p ! i"
    and cen: "\<forall>i<k. cp ! i = i \<longrightarrow> ?p ! i = card (centroids cp i)"
    and one: "\<forall>c. ?L \<le> c \<longrightarrow> c < n \<longrightarrow> ?m ! c = 1"
    and mean: "\<forall>c<?L. ?m ! c = card (members ?p k c) \<and> members ?p k c \<noteq> {} \<and>
        ?nv ! c = (\<Sum>i\<in>members ?p k c. vs ! i) /\<^sub>R real (card (members ?p k c))"
    by blast+
  have Lk: "?L \<le> k" using L card_centroids_le[of cp k] by simp
  from le k have "cp ! k \<le> k" by blast
  with c have ck: "cp ! k < k" by simp
  define ccid where "ccid = ?p ! (cp ! k)"
  define sz where "sz = ?m ! ccid"
  have cL: "ccid < ?L" using rng ck by (simp add: ccid_def)
  have cn: "ccid < n" using cL Lk k by simp
  define st' where "st' = st\<lparr>num_cluster_members_vec := ?m[ccid := sz + 1],
       new_vertices := ?nv[ccid := (vs ! k + real sz *\<^sub>R (?nv ! ccid)) /\<^sub>R (real sz + 1)],
       pid2ccid := ?p[k := ccid]\<rparr>"
  have body: "reduce_body vs cp k st = Inr st'"
    using len k c lp lm ck cL cn
    by (simp add: reduce_body_def st'_def Let_def ccid_def[symmetric] sz_def[symmetric])
  have p': "pid2ccid st' = ?p[k := ccid]"
    and nv': "new_vertices st' =
       ?nv[ccid := (vs ! k + real sz *\<^sub>R (?nv ! ccid)) /\<^sub>R (real sz + 1)]"
    and m': "num_cluster_members_vec st' = ?m[ccid := sz + 1]" and nc': "n_clusters st' = ?L"
    by (simp_all add: st'_def nc)
  have pk: "pid2ccid st' ! k = ccid" using lp k by (simp add: p')
  have pi: "\<And>i. i < k \<Longrightarrow> pid2ccid st' ! i = ?p ! i" by (simp add: p')
  have mem_same: "members (pid2ccid st') k c' = members ?p k c'" for c'
    by (simp add: p')
  have memc: "members (pid2ccid st') (Suc k) ccid = insert k (members ?p k ccid)"
    by (simp add: members_Suc pk mem_same)
  have memo: "\<And>c'. c' \<noteq> ccid \<Longrightarrow> members (pid2ccid st') (Suc k) c' = members ?p k c'"
    by (simp add: members_Suc pk mem_same)
  from mean cL have szc: "sz = card (members ?p k ccid)" and ne: "members ?p k ccid \<noteq> {}"
    and mv: "?nv ! ccid = (\<Sum>i\<in>members ?p k ccid. vs ! i) /\<^sub>R real (card (members ?p k ccid))"
    by (simp_all add: sz_def)
  have szpos: "0 < sz" using ne by (simp add: szc card_gt_0_iff)
  have "reduce_inv vs cp n (Suc k) st'"
    unfolding reduce_inv_def
  proof (intro conjI allI impI)
    show "length (pid2ccid st') = n" by (simp add: p' lp)
    show "length (num_cluster_members_vec st') = n" by (simp add: m' lm)
    show "n_clusters st' = length (new_vertices st')" by (simp add: nc' nv')
    show "length (new_vertices st') = card (centroids cp (Suc k))"
      using c by (simp add: nv' centroids_Suc L)
    show "pid2ccid st' ! i < length (new_vertices st')" if "i < Suc k" for i
      using that rng pk pi cL by (cases "i = k") (auto simp: nv' less_Suc_eq)
    show "pid2ccid st' ! (cp ! i) = pid2ccid st' ! i" if "i < Suc k" for i
    proof (cases "i = k")
      case True
      then show ?thesis using pk pi[OF ck] by (simp add: ccid_def)
    next
      case False
      then have ik: "i < k" using that by simp
      from ik k have "i < n" by simp
      with le have "cp ! i \<le> i" by blast
      with ik have "cp ! i < k" by simp
      then show ?thesis using pi par ik by simp
    qed
    show "pid2ccid st' ! i = card (centroids cp i)" if "i < Suc k" "cp ! i = i" for i
    proof -
      from that c have "i < k" by (cases "i = k") auto
      then show ?thesis using cen that pi by simp
    qed
    show "num_cluster_members_vec st' ! c' = 1"
      if "length (new_vertices st') \<le> c'" "c' < n" for c'
    proof -
      from that cL have "c' \<noteq> ccid" by (simp add: nv')
      then show ?thesis using that one by (simp add: nv' m')
    qed
    show "num_cluster_members_vec st' ! c' = card (members (pid2ccid st') (Suc k) c')"
      if "c' < length (new_vertices st')" for c'
    proof (cases "c' = ccid")
      case True
      then show ?thesis using cn lm by (simp add: memc m' szc)
    next
      case False
      then show ?thesis using that mean by (simp add: memo m' nv')
    qed
    show "members (pid2ccid st') (Suc k) c' \<noteq> {}" if "c' < length (new_vertices st')" for c'
    proof (cases "c' = ccid")
      case True then show ?thesis by (simp add: memc)
    next
      case False
      then show ?thesis using that mean by (simp add: memo nv')
    qed
    show "new_vertices st' ! c' =
          (\<Sum>i\<in>members (pid2ccid st') (Suc k) c'. vs ! i)
            /\<^sub>R real (card (members (pid2ccid st') (Suc k) c'))"
      if "c' < length (new_vertices st')" for c'
    proof (cases "c' = ccid")
      case True
      have "new_vertices st' ! ccid = (vs ! k + real sz *\<^sub>R (?nv ! ccid)) /\<^sub>R (real sz + 1)"
        using cL by (simp add: nv')
      also have "\<dots> = (vs ! k + (\<Sum>i\<in>members ?p k ccid. vs ! i)) /\<^sub>R real (Suc sz)"
        unfolding mv szc[symmetric] by (rule running_mean[OF szpos])
      also have "\<dots> = (\<Sum>i\<in>members (pid2ccid st') (Suc k) ccid. vs ! i)
            /\<^sub>R real (card (members (pid2ccid st') (Suc k) ccid))"
        by (simp add: memc szc)
      finally show ?thesis using True by simp
    next
      case False
      then show ?thesis using that mean by (simp add: memo nv')
    qed
  qed
  with body show ?thesis by blast
qed

lemma reduce_inv_step:
  assumes "length cp = n" "length vs = n" "\<forall>i<n. cp ! i \<le> i" "k < n"
    and "reduce_inv vs cp n k st"
  shows "\<exists>st'. reduce_body vs cp k st = Inr st' \<and> reduce_inv vs cp n (Suc k) st'"
  using assms reduce_inv_centroid reduce_inv_follower by (cases "cp ! k = k") blast+

lemma reduce_inv_init:
  "length p0 = n \<Longrightarrow>
   reduce_inv vs cp n 0 \<lparr>pid2ccid = p0, new_vertices = [], n_clusters = 0,
     num_cluster_members_vec = replicate n 1\<rparr>"
  by (simp add: reduce_inv_def centroids_def)

lemma reduce_loop_inv:
  assumes "length cp = n" "length vs = n" "\<forall>i<n. cp ! i \<le> i"
    and "reduce_inv vs cp n 0 st0" and "k \<le> n"
  shows "\<exists>st. reduce_loop vs cp [0..<k] st0 = Inr st \<and> reduce_inv vs cp n k st"
  using \<open>k \<le> n\<close>
proof (induction k)
  case 0
  then show ?case using assms(4) by simp
next
  case (Suc k)
  then obtain st where st: "reduce_loop vs cp [0..<k] st0 = Inr st" "reduce_inv vs cp n k st"
    by auto
  from Suc.prems have "k < n" by simp
  from reduce_inv_step[OF assms(1-3) this st(2)]
  obtain st' where "reduce_body vs cp k st = Inr st'" "reduce_inv vs cp n (Suc k) st'" by blast
  then show ?case using st by (simp add: reduce_loop_append)
qed

lemma card_centroids_strict:
  assumes "a < b" "cp ! a = a"
  shows "card (centroids cp a) < card (centroids cp b)"
proof -
  have "centroids cp a \<subset> centroids cp b"
    using assms by (auto simp: centroids_def)
  then show ?thesis by (intro psubset_card_mono) auto
qed

lemma card_centroids_inj:
  assumes "cp ! a = a" "cp ! b = b" "card (centroids cp a) = card (centroids cp b)"
  shows "a = b"
proof (rule ccontr)
  assume "a \<noteq> b"
  then consider "a < b" | "b < a" by linarith
  then show False
    using assms card_centroids_strict[of a b cp] card_centroids_strict[of b a cp] by cases auto
qed

lemma reduce_result:
  assumes len: "length cp = n" "length vs = n" "length p0 = n"
    and le: "\<forall>i<n. cp ! i \<le> i"
  shows "\<exists>p2c nv. reduce vs p0 [] cp n = Inr (p2c, nv) \<and>
      length p2c = n \<and> length nv = card (centroids cp n) \<and>
      (\<forall>i<n. p2c ! i < length nv) \<and>
      (\<forall>i<n. p2c ! (cp ! i) = p2c ! i) \<and>
      (\<forall>i<n. cp ! i = i \<longrightarrow> p2c ! i = card (centroids cp i)) \<and>
      (\<forall>c<length nv. members p2c n c \<noteq> {} \<and>
         nv ! c = (\<Sum>i\<in>members p2c n c. vs ! i) /\<^sub>R real (card (members p2c n c)))"
proof -
  let ?st0 = "\<lparr>pid2ccid = p0, new_vertices = [], n_clusters = 0,
     num_cluster_members_vec = replicate n 1\<rparr>"
  from reduce_loop_inv[OF len(1,2) le reduce_inv_init[OF len(3)] le_refl]
  obtain st where st: "reduce_loop vs cp [0..<n] ?st0 = Inr st" "reduce_inv vs cp n n st"
    by blast
  have "reduce vs p0 [] cp n = Inr (pid2ccid st, new_vertices st)"
    using st(1) by (simp add: reduce_def)
  moreover from st(2)[unfolded reduce_inv_def]
  have "length (pid2ccid st) = n" "length (new_vertices st) = card (centroids cp n)"
    "\<forall>i<n. pid2ccid st ! i < length (new_vertices st)"
    "\<forall>i<n. pid2ccid st ! (cp ! i) = pid2ccid st ! i"
    "\<forall>i<n. cp ! i = i \<longrightarrow> pid2ccid st ! i = card (centroids cp i)"
    "\<forall>c<length (new_vertices st). members (pid2ccid st) n c \<noteq> {} \<and>
         new_vertices st ! c = (\<Sum>i\<in>members (pid2ccid st) n c. vs ! i)
           /\<^sub>R real (card (members (pid2ccid st) n c))"
    by blast+
  ultimately show ?thesis by blast
qed

lemma same_cluster_iff:
  assumes le: "\<forall>i<n. cp ! i \<le> i" and idem: "\<forall>i<n. cp ! (cp ! i) = cp ! i"
    and par: "\<forall>i<n. p2c ! (cp ! i) = p2c ! i"
    and cen: "\<forall>i<n. cp ! i = i \<longrightarrow> p2c ! i = card (centroids cp i)"
    and i: "i < n" and j: "j < n"
  shows "p2c ! i = p2c ! j \<longleftrightarrow> cp ! i = cp ! j"
proof
  assume eq: "p2c ! i = p2c ! j"
  from le i j have ci: "cp ! i < n" and cj: "cp ! j < n"
    by (meson le_less_trans)+
  from idem i j have "cp ! (cp ! i) = cp ! i" "cp ! (cp ! j) = cp ! j" by blast+
  moreover from this cen ci cj have "p2c ! (cp ! i) = card (centroids cp (cp ! i))"
    "p2c ! (cp ! j) = card (centroids cp (cp ! j))" by blast+
  moreover from par i j eq have "p2c ! (cp ! i) = p2c ! (cp ! j)" by simp
  ultimately show "cp ! i = cp ! j" using card_centroids_inj[of cp "cp ! i" "cp ! j"] by simp
next
  assume "cp ! i = cp ! j"
  then show "p2c ! i = p2c ! j" using par i j by metis
qed

text \<open>
  Claim C2.  For a parent array with \<open>cp_vec ! i \<le> i\<close> and
  \<open>cp_vec ! (cp_vec ! i) = cp_vec ! i\<close> for all ids, \<open>reduce\<close> (called, as the welder
  does, with an empty \<open>new_vertices\<close>) returns without touching a vector out of range;
  every original id is mapped to a new vertex; two ids get the same new id exactly when
  they have the same parent; and every new vertex position is the arithmetic mean of the
  original positions of exactly the ids that \<open>pid2ccid\<close> maps to it.  Arithmetic is
  exact (real numbers), so the order of the running-mean updates does not matter.
\<close>

theorem reduce_mean:
  assumes "length cp_vec = n" and "length vs = n" and "length pid2ccid0 = n"
    and "\<forall>i<n. cp_vec ! i \<le> i" and "\<forall>i<n. cp_vec ! (cp_vec ! i) = cp_vec ! i"
  shows "\<exists>p2c nv. reduce vs pid2ccid0 [] cp_vec n = Inr (p2c, nv) \<and>
      length p2c = n \<and>
      (\<forall>i<n. p2c ! i < length nv) \<and>
      (\<forall>i<n. \<forall>j<n. (p2c ! i = p2c ! j) = (cp_vec ! i = cp_vec ! j)) \<and>
      (\<forall>c<length nv. members p2c n c \<noteq> {} \<and>
         nv ! c = (\<Sum>i\<in>members p2c n c. vs ! i) /\<^sub>R real (card (members p2c n c)))"
proof -
  from reduce_result[OF assms(1-4)] obtain p2c nv where
    r: "reduce vs pid2ccid0 [] cp_vec n = Inr (p2c, nv)" "length p2c = n"
      "\<forall>i<n. p2c ! i < length nv"
      "\<forall>i<n. p2c ! (cp_vec ! i) = p2c ! i"
      "\<forall>i<n. cp_vec ! i = i \<longrightarrow> p2c ! i = card (centroids cp_vec i)"
      "\<forall>c<length nv. members p2c n c \<noteq> {} \<and>
         nv ! c = (\<Sum>i\<in>members p2c n c. vs ! i) /\<^sub>R real (card (members p2c n c))"
    by blast
  have "\<forall>i<n. \<forall>j<n. (p2c ! i = p2c ! j) = (cp_vec ! i = cp_vec ! j)"
    using same_cluster_iff[OF assms(4,5) r(4,5)] by blast
  with r show ?thesis by blast
qed

text \<open>
  The two-point scenario of the specification: vertices \<open>(0,0,0)\<close> and \<open>(1/2,0,0)\<close>, both
  with parent \<open>0\<close>, reduce to the single vertex \<open>(1/4,0,0)\<close>.
\<close>

lemma members_ex1: "members [0, 0] 2 0 = {0, 1}"
  by (auto simp: members_def less_Suc_eq numeral_2_eq_2)

theorem reduce_mean_witness:
  "reduce [Vector3d 0 0 0, Vector3d (1/2) 0 0] [0, 0] [] [0, 0] 2
      = Inr ([0, 0], [Vector3d (1/4) 0 0]) \<and>
   Vector3d (1/4) 0 0 =
     (\<Sum>i\<in>members [0, 0] 2 0. [Vector3d 0 0 0, Vector3d (1/2) 0 0] ! i)
        /\<^sub>R real (card (members [0, 0] 2 0))"
proof -
  let ?vs = "[Vector3d 0 0 0, Vector3d (1/2) 0 0]"
  have ev: "reduce ?vs [0, 0] [] [0, 0] 2 = Inr ([0, 0], [Vector3d (1/4) 0 0])"
    by code_simp
  have h: "\<forall>i<2. [0, 0::nat] ! i \<le> i" "\<forall>i<2. [0, 0::nat] ! ([0, 0] ! i) = [0, 0] ! i"
    by (simp_all add: less_Suc_eq numeral_2_eq_2)
  from reduce_mean[of "[0, 0]" 2 ?vs "[0, 0]", OF _ _ _ h]
  obtain p2c nv where r: "reduce ?vs [0, 0] [] [0, 0] 2 = Inr (p2c, nv)"
    "\<forall>c<length nv. members p2c 2 c \<noteq> {} \<and>
         nv ! c = (\<Sum>i\<in>members p2c 2 c. ?vs ! i) /\<^sub>R real (card (members p2c 2 c))"
    by auto
  from r(1) ev have "p2c = [0, 0]" "nv = [Vector3d (1/4) 0 0]" by simp_all
  with r(2) have "[Vector3d (1/4) 0 0] ! 0 =
     (\<Sum>i\<in>members [0, 0] 2 0. ?vs ! i) /\<^sub>R real (card (members [0, 0] 2 0))"
    by simp
  with ev show ?thesis by simp
qed

section \<open>Spatial index (contract of \<^verbatim>\<open>KDTreeFlann\<close>)\<close>

text \<open>
  Only the declaration of \<^verbatim>\<open>KDTreeFlann\<close> is part of the sources; the search itself is
  modelled from the contract the specification gives for it.
\<close>

record KDTreeFlann =
  data :: "Vector3d list"

text \<open>
  Modelled from the spec: \<^verbatim>\<open>build(points)\<close>, the static index over the vertices of a
  mesh (\<^verbatim>\<open>KDTreeFlann kdtree(mesh)\<close> in both drivers); the body of the constructor is
  not in the sources.
\<close>

definition KDTreeFlann_of :: "'a TriangleMesh_scheme \<Rightarrow> KDTreeFlann" where
  "KDTreeFlann_of mesh = \<lparr>data = vertices mesh\<rparr>"

definition dist2 :: "Vector3d \<Rightarrow> Vector3d \<Rightarrow> real" where
  "dist2 p q = (vx p - vx q)\<^sup>2 + (vy p - vy q)\<^sup>2 + (vz p - vz q)\<^sup>2"

text \<open>
  Modelled from the spec: ``Distances are Euclidean; the inclusion is closed
  (\<open>\<le> r\<close>)''; the distance computation of the index is not in the sources.
\<close>

definition within_radius :: "real \<Rightarrow> Vector3d \<Rightarrow> Vector3d \<Rightarrow> bool" where
  "within_radius r q p \<longleftrightarrow> sqrt (dist2 q p) \<le> r"

text \<open>
  Modelled from the spec: \<^verbatim>\<open>search_radius_split(q, r, i)\<close> ``returns the count of
  neighbors with id \<open>\<le> i\<close> (including \<open>i\<close> itself) and the ids of neighbors with id
  \<open>> i\<close>''; the body of \<^verbatim>\<open>SearchRadiusSmallerAndBigger\<close> is not in the sources.  The
  order of the returned ids is unspecified but deterministic; the model returns them
  ascending.  The first component is the returned \<^verbatim>\<open>int\<close>, the second the contents
  of \<^verbatim>\<open>indices_bigger\<close>.
\<close>

definition SearchRadiusSmallerAndBigger ::
  "KDTreeFlann \<Rightarrow> Vector3d \<Rightarrow> real \<Rightarrow> nat \<Rightarrow> int \<times> nat list" where
  "SearchRadiusSmallerAndBigger kdtree query radius currentIdx =
    (int (length (filter (\<lambda>j. j \<le> currentIdx \<and> within_radius radius query (data kdtree ! j))
                    [0..<length (data kdtree)])),
     filter (\<lambda>j. currentIdx < j \<and> within_radius radius query (data kdtree ! j))
       [0..<length (data kdtree)])"

section \<open>OpenMP work sharing\<close>

text \<open>
  The iterations of a \<^verbatim>\<open>#pragma omp for\<close> loop are shared among the threads of the
  team.  The model runs the iteration bodies one after the other (an iteration body is
  atomic) in an order that the runtime chooses anew for every work-sharing region: the
  \<open>k\<close>-th region runs the iterations \<open>0, \<dots>, n - 1\<close> stably sorted by the key
  \<open>omp_when rt k\<close>.  A constant key is the ascending order of a single thread; every
  permutation of the iterations is the order of some key.  \<open>omp_thread_of rt i\<close> is the
  thread that the (static) schedule gives iteration \<open>i\<close>, reduced modulo the size of the
  team, and \<open>omp_threads rt\<close> is the number of threads beyond the first.
\<close>

record omp_runtime =
  omp_when :: "nat \<Rightarrow> nat \<Rightarrow> nat"
  omp_thread_of :: "nat \<Rightarrow> nat"
  omp_threads :: nat

definition omp_for :: "omp_runtime \<Rightarrow> nat \<Rightarrow> nat \<Rightarrow> nat list" where
  "omp_for rt k n = sort_key (omp_when rt k) [0..<n]"

definition omp_get_max_threads :: "omp_runtime \<Rightarrow> nat" where
  "omp_get_max_threads rt = Suc (omp_threads rt)"

definition omp_get_thread_num :: "omp_runtime \<Rightarrow> nat \<Rightarrow> nat" where
  "omp_get_thread_num rt i = omp_thread_of rt i mod omp_get_max_threads rt"

section \<open>Welder: \<^verbatim>\<open>merge_vertices_forward\<close>\<close>

text \<open>
  The shared variables of the wave loop.  Vertex ids and counters are \<^verbatim>\<open>int\<close> in the
  source; ids are natural numbers here and \<open>remainingSmallerFinalsVec\<close>, which goes
  negative, holds integers (no counter leaves the range of \<^verbatim>\<open>int\<close> for a mesh that
  \<^verbatim>\<open>static_cast<int>(vertices_.size())\<close> can count).  \<open>fault\<close> records an access
  outside a vector.
\<close>

record weld_state =
  cp_vec :: "nat list"
  remainingSmallerFinalsVec :: "int list"
  should_continue :: bool
  numIterations :: nat
  fault :: bool

text \<open>
  The compare-and-swap loop on \<^verbatim>\<open>cp_vec[biggerNeighborIdx]\<close>: it gives up when
  \<^verbatim>\<open>desired >= expected\<close>; otherwise the swap of an atomic iteration body succeeds.
\<close>

definition cas_min :: "nat list \<Rightarrow> nat \<Rightarrow> nat \<Rightarrow> nat list" where
  "cas_min cp j desired =
    (let expected = cp ! j in if desired \<ge> expected then cp else cp[j := desired])"

text \<open>The body of \<^verbatim>\<open>for( const int biggerNeighborIdx : inner_vec )\<close>.\<close>

definition neighbor_update ::
  "nat \<Rightarrow> bool \<Rightarrow> nat \<Rightarrow> 'a weld_state_scheme \<Rightarrow> 'a weld_state_scheme" where
  "neighbor_update i isCentroid biggerNeighborIdx st =
    (if length (remainingSmallerFinalsVec st) \<le> biggerNeighborIdx
        \<or> length (cp_vec st) \<le> biggerNeighborIdx
     then st\<lparr>fault := True\<rparr>
     else
       let st1 = (if isCentroid \<and> remainingSmallerFinalsVec st ! biggerNeighborIdx > 0
                  then st\<lparr>cp_vec := cas_min (cp_vec st) biggerNeighborIdx i\<rparr> else st);
           st2 = (if remainingSmallerFinalsVec st1 ! biggerNeighborIdx \<ge> 1
                  then st1\<lparr>should_continue := True\<rparr> else st1)
       in st2\<lparr>remainingSmallerFinalsVec := (remainingSmallerFinalsVec st2)
                 [biggerNeighborIdx := remainingSmallerFinalsVec st2 ! biggerNeighborIdx - 1]\<rparr>)"

text \<open>The body of the work-shared loop over the vertices, for vertex \<open>i\<close>.\<close>

definition wave_body :: "nat list list \<Rightarrow> nat \<Rightarrow> weld_state \<Rightarrow> weld_state" where
  "wave_body pid2nnBigger i st =
    (if remainingSmallerFinalsVec st ! i < 0 then st
     else if remainingSmallerFinalsVec st ! i = 0 then
       let st1 = st\<lparr>remainingSmallerFinalsVec :=
                      (remainingSmallerFinalsVec st)[i := remainingSmallerFinalsVec st ! i - 1]\<rparr>;
           isCentroid = (cp_vec st1 ! i = i)
       in fold (neighbor_update i isCentroid) (pid2nnBigger ! i) st1
     else st)"

text \<open>
  One iteration of \<^verbatim>\<open>while (should_continue)\<close>: the \<^verbatim>\<open>single\<close> region, then the
  work-shared loop over \<open>numVertices\<close> iterations (the length of the vectors).
\<close>

definition wave :: "omp_runtime \<Rightarrow> nat list list \<Rightarrow> weld_state \<Rightarrow> weld_state" where
  "wave rt pid2nnBigger st =
    fold (wave_body pid2nnBigger)
      (omp_for rt (numIterations st) (length (remainingSmallerFinalsVec st)))
      (st\<lparr>numIterations := numIterations st + 1, should_continue := False\<rparr>)"

text \<open>The number of vertices that have not emitted yet.\<close>

definition unemitted :: "'a weld_state_scheme \<Rightarrow> nat" where
  "unemitted st =
    card {i. i < length (remainingSmallerFinalsVec st) \<and> 0 \<le> remainingSmallerFinalsVec st ! i}"

subsection \<open>Termination of the wave loop\<close>

lemma neighbor_update_length [simp]:
  "length (remainingSmallerFinalsVec (neighbor_update i c j st)) = length (remainingSmallerFinalsVec st)"
  "length (cp_vec (neighbor_update i c j st)) = length (cp_vec st)"
  by (simp_all add: neighbor_update_def cas_min_def Let_def)

lemma neighbor_update_rem_le:
  "k < length (remainingSmallerFinalsVec st) \<Longrightarrow>
   remainingSmallerFinalsVec (neighbor_update i c j st) ! k \<le> remainingSmallerFinalsVec st ! k"
  by (simp add: neighbor_update_def Let_def nth_list_update)

lemma fold_neighbor_update_length [simp]:
  "length (remainingSmallerFinalsVec (fold (neighbor_update i c) js st)) = length (remainingSmallerFinalsVec st)"
  "length (cp_vec (fold (neighbor_update i c) js st)) = length (cp_vec st)"
  by (induction js arbitrary: st) simp_all

lemma fold_neighbor_update_rem_le:
  "k < length (remainingSmallerFinalsVec st) \<Longrightarrow>
   remainingSmallerFinalsVec (fold (neighbor_update i c) js st) ! k \<le> remainingSmallerFinalsVec st ! k"
proof (induction js arbitrary: st)
  case Nil
  then show ?case by simp
next
  case (Cons j js)
  have "remainingSmallerFinalsVec (fold (neighbor_update i c) js (neighbor_update i c j st)) ! k
      \<le> remainingSmallerFinalsVec (neighbor_update i c j st) ! k"
    using Cons.prems by (intro Cons.IH) simp
  also have "\<dots> \<le> remainingSmallerFinalsVec st ! k"
    using Cons.prems by (rule neighbor_update_rem_le)
  finally show ?case by simp
qed

lemma unemitted_mono:
  assumes "length (remainingSmallerFinalsVec st') = length (remainingSmallerFinalsVec st)"
    and "\<And>k. k < length (remainingSmallerFinalsVec st) \<Longrightarrow>
           remainingSmallerFinalsVec st' ! k \<le> remainingSmallerFinalsVec st ! k"
  shows "unemitted st' \<le> unemitted st"
  unfolding unemitted_def
proof (rule card_mono)
  show "finite {i. i < length (remainingSmallerFinalsVec st) \<and> 0 \<le> remainingSmallerFinalsVec st ! i}"
    by simp
  show "{i. i < length (remainingSmallerFinalsVec st') \<and> 0 \<le> remainingSmallerFinalsVec st' ! i}
      \<subseteq> {i. i < length (remainingSmallerFinalsVec st) \<and> 0 \<le> remainingSmallerFinalsVec st ! i}"
    using assms by (auto intro: order_trans)
qed

lemma unemitted_activate:
  assumes "i < length (remainingSmallerFinalsVec st)" "remainingSmallerFinalsVec st ! i = 0"
  shows "unemitted (st\<lparr>remainingSmallerFinalsVec :=
            (remainingSmallerFinalsVec st)[i := remainingSmallerFinalsVec st ! i - 1]\<rparr>) < unemitted st"
  unfolding unemitted_def
proof (rule psubset_card_mono)
  let ?r = "remainingSmallerFinalsVec st"
  show "finite {k. k < length ?r \<and> 0 \<le> ?r ! k}" by simp
  have "i \<in> {k. k < length ?r \<and> 0 \<le> ?r ! k}" using assms by simp
  moreover have "i \<notin> {k. k < length (remainingSmallerFinalsVec (st\<lparr>remainingSmallerFinalsVec := ?r[i := ?r ! i - 1]\<rparr>))
        \<and> 0 \<le> remainingSmallerFinalsVec (st\<lparr>remainingSmallerFinalsVec := ?r[i := ?r ! i - 1]\<rparr>) ! k}"
    using assms by simp
  moreover have "{k. k < length (remainingSmallerFinalsVec (st\<lparr>remainingSmallerFinalsVec := ?r[i := ?r ! i - 1]\<rparr>))
        \<and> 0 \<le> remainingSmallerFinalsVec (st\<lparr>remainingSmallerFinalsVec := ?r[i := ?r ! i - 1]\<rparr>) ! k}
      \<subseteq> {k. k < length ?r \<and> 0 \<le> ?r ! k}"
    using assms by (auto simp: nth_list_update split: if_splits)
  ultimately show "{k. k < length (remainingSmallerFinalsVec (st\<lparr>remainingSmallerFinalsVec := ?r[i := ?r ! i - 1]\<rparr>))
        \<and> 0 \<le> remainingSmallerFinalsVec (st\<lparr>remainingSmallerFinalsVec := ?r[i := ?r ! i - 1]\<rparr>) ! k}
      \<subset> {k. k < length ?r \<and> 0 \<le> ?r ! k}"
    by blast
qed

text \<open>The termination measure: a wave that raises the flag has emitted a vertex.\<close>

definition wave_measure :: "'a weld_state_scheme \<Rightarrow> nat" where
  "wave_measure st = unemitted st + (if should_continue st then 1 else 0)"

lemma wave_body_length [simp]:
  "length (remainingSmallerFinalsVec (wave_body nn i st)) = length (remainingSmallerFinalsVec st)"
  "length (cp_vec (wave_body nn i st)) = length (cp_vec st)"
  by (simp_all add: wave_body_def Let_def)

lemma wave_body_measure:
  assumes "i < length (remainingSmallerFinalsVec st)"
  shows "wave_measure (wave_body nn i st) \<le> wave_measure st"
proof (cases "remainingSmallerFinalsVec st ! i = 0")
  case True
  let ?st1 = "st\<lparr>remainingSmallerFinalsVec :=
            (remainingSmallerFinalsVec st)[i := remainingSmallerFinalsVec st ! i - 1]\<rparr>"
  let ?st2 = "fold (neighbor_update i (cp_vec ?st1 ! i = i)) (nn ! i) ?st1"
  have eq: "wave_body nn i st = ?st2" using True by (simp add: wave_body_def Let_def)
  have "unemitted ?st2 \<le> unemitted ?st1"
  proof (rule unemitted_mono)
    show "length (remainingSmallerFinalsVec ?st2) = length (remainingSmallerFinalsVec ?st1)"
      by simp
    show "remainingSmallerFinalsVec ?st2 ! k \<le> remainingSmallerFinalsVec ?st1 ! k"
      if "k < length (remainingSmallerFinalsVec ?st1)" for k
      using that by (rule fold_neighbor_update_rem_le)
  qed
  also have "\<dots> < unemitted st" using assms True by (rule unemitted_activate)
  finally show ?thesis unfolding eq wave_measure_def by simp
next
  case False
  then show ?thesis by (simp add: wave_body_def)
qed

lemma fold_wave_body_length [simp]:
  "length (remainingSmallerFinalsVec (fold (wave_body nn) xs st)) = length (remainingSmallerFinalsVec st)"
  "length (cp_vec (fold (wave_body nn) xs st)) = length (cp_vec st)"
  by (induction xs arbitrary: st) simp_all

lemma fold_wave_body_measure:
  assumes "\<forall>i\<in>set xs. i < length (remainingSmallerFinalsVec st)"
  shows "wave_measure (fold (wave_body nn) xs st) \<le> wave_measure st"
  using assms
proof (induction xs arbitrary: st)
  case Nil
  then show ?case by simp
next
  case (Cons i xs)
  have "wave_measure (fold (wave_body nn) xs (wave_body nn i st)) \<le> wave_measure (wave_body nn i st)"
    using Cons.prems by (intro Cons.IH) simp
  also have "\<dots> \<le> wave_measure st" using Cons.prems by (intro wave_body_measure) simp
  finally show ?case by simp
qed

lemma set_omp_for [simp]: "set (omp_for rt k n) = {..<n}"
  by (auto simp: omp_for_def)

lemma distinct_omp_for [simp]: "distinct (omp_for rt k n)"
  by (simp add: omp_for_def)

lemma wave_length [simp]:
  "length (remainingSmallerFinalsVec (wave rt nn st)) = length (remainingSmallerFinalsVec st)"
  "length (cp_vec (wave rt nn st)) = length (cp_vec st)"
  by (simp_all add: wave_def)

lemma wave_measure_decreases:
  assumes "should_continue st"
  shows "wave_measure (wave rt nn st) < wave_measure st"
proof -
  let ?st0 = "st\<lparr>numIterations := numIterations st + 1, should_continue := False\<rparr>"
  have "wave_measure (wave rt nn st) \<le> wave_measure ?st0"
    unfolding wave_def by (rule fold_wave_body_measure) simp
  also have "\<dots> < wave_measure st"
    using assms by (simp add: wave_measure_def unemitted_def)
  finally show ?thesis .
qed

text \<open>
  \<^verbatim>\<open>while (should_continue)\<close>.  The loop is entered with the flag set.
\<close>

function wave_loop :: "omp_runtime \<Rightarrow> nat list list \<Rightarrow> weld_state \<Rightarrow> weld_state" where
  "wave_loop rt pid2nnBigger st =
    (if should_continue st then wave_loop rt pid2nnBigger (wave rt pid2nnBigger st) else st)"
  by pat_completeness auto
termination
  by (relation "measure (\<lambda>(rt, nn, st). wave_measure st)") (simp_all add: wave_measure_decreases)

text \<open>
  The initialisation loop: every iteration writes its own slots only, so the order of
  the iterations does not matter.  The result is \<open>pid2nnBigger\<close> and the shared state
  at the first test of \<^verbatim>\<open>while (should_continue)\<close>.
\<close>

definition weld_init :: "KDTreeFlann \<Rightarrow> real \<Rightarrow> Vector3d list \<Rightarrow> nat list list \<times> weld_state" where
  "weld_init kdtree eps vs =
    (let numVertices = length vs;
         found = map (\<lambda>i. SearchRadiusSmallerAndBigger kdtree (vs ! i) eps i) [0..<numVertices]
     in (map snd found,
         \<lparr>cp_vec = [0..<numVertices],
          remainingSmallerFinalsVec = map (\<lambda>r. fst r - 1) found,
          should_continue = True, numIterations = 0, fault = False\<rparr>))"

text \<open>The state when the wave loop of \<^verbatim>\<open>merge_vertices_forward\<close> has ended.\<close>

definition weld_forward :: "omp_runtime \<Rightarrow> KDTreeFlann \<Rightarrow> real \<Rightarrow> Vector3d list \<Rightarrow> weld_state" where
  "weld_forward rt kdtree eps vs =
    (let (pid2nnBigger, st0) = weld_init kdtree eps vs in wave_loop rt pid2nnBigger st0)"

text \<open>The triangle loop: \<^verbatim>\<open>triangle(k) = pid2ccid[triangle(k)]\<close>.\<close>

definition rewrite_triangle :: "nat list \<Rightarrow> nat \<times> nat \<times> nat \<Rightarrow> error + nat \<times> nat \<times> nat" where
  "rewrite_triangle p2c t =
    (case t of (a, b, c) \<Rightarrow>
       if a < length p2c \<and> b < length p2c \<and> c < length p2c
       then Inr (p2c ! a, p2c ! b, p2c ! c) else Inl OutOfBounds)"

fun rewrite_triangles :: "nat list \<Rightarrow> (nat \<times> nat \<times> nat) list \<Rightarrow> error + (nat \<times> nat \<times> nat) list" where
  "rewrite_triangles p2c [] = Inr []"
| "rewrite_triangles p2c (t # ts) =
    (case rewrite_triangle p2c t of
       Inl e \<Rightarrow> Inl e
     | Inr t' \<Rightarrow>
        (case rewrite_triangles p2c ts of Inl e \<Rightarrow> Inl e | Inr ts' \<Rightarrow> Inr (t' # ts')))"

definition merge_vertices_forward ::
  "omp_runtime \<Rightarrow> KDTreeFlann \<Rightarrow> real \<Rightarrow> TriangleMesh \<Rightarrow> error + TriangleMesh" where
  "merge_vertices_forward rt kdtree eps mesh =
    (let numVertices = length (vertices mesh);
         st = weld_forward rt kdtree eps (vertices mesh)
     in if fault st then Inl OutOfBounds
        else
          case reduce (vertices mesh) (replicate numVertices 0) [] (cp_vec st) numVertices of
            Inl e \<Rightarrow> Inl e
          | Inr (p2c, nv) \<Rightarrow>
             (case rewrite_triangles p2c (triangles mesh) of
                Inl e \<Rightarrow> Inl e
              | Inr ts \<Rightarrow> Inr (mesh\<lparr>triangles := ts, vertices := nv\<rparr>)))"

text \<open>The schedule of a team of one thread: every loop runs in ascending order.\<close>

definition sequential :: omp_runtime where
  "sequential = \<lparr>omp_when = (\<lambda>k i. 0), omp_thread_of = (\<lambda>i. 0), omp_threads = 0\<rparr>"

lemma dist2_nonneg: "0 \<le> dist2 p q"
  by (simp add: dist2_def)

lemma within_radius_code [code]:
  "within_radius r q p \<longleftrightarrow> 0 \<le> r \<and> dist2 q p \<le> r * r"
proof -
  have "sqrt (dist2 q p) \<le> r \<longleftrightarrow> 0 \<le> r \<and> dist2 q p \<le> r\<^sup>2"
    using dist2_nonneg[of q p]
    by (metis order_trans real_sqrt_ge_zero real_sqrt_le_iff real_sqrt_abs real_sqrt_unique)
  then show ?thesis by (simp add: within_radius_def power2_eq_square)
qed

subsection \<open>What the inner loop does to the shared vectors\<close>

lemma neighbor_update_char:
  assumes "j < length (remainingSmallerFinalsVec st)" "j < length (cp_vec st)"
    and "1 \<le> remainingSmallerFinalsVec st ! j"
  shows "remainingSmallerFinalsVec (neighbor_update i c j st)
           = (remainingSmallerFinalsVec st)[j := remainingSmallerFinalsVec st ! j - 1]"
    and "cp_vec (neighbor_update i c j st)
           = (if c \<and> i < cp_vec st ! j then (cp_vec st)[j := i] else cp_vec st)"
    and "should_continue (neighbor_update i c j st)"
    and "fault (neighbor_update i c j st) = fault st"
    and "numIterations (neighbor_update i c j st) = numIterations st"
  using assms by (auto simp: neighbor_update_def cas_min_def Let_def)

lemma fold_neighbor_update_char:
  assumes "distinct js"
    and "\<forall>j\<in>set js. j < length (remainingSmallerFinalsVec st) \<and> j < length (cp_vec st)
            \<and> 1 \<le> remainingSmallerFinalsVec st ! j"
  shows "(\<forall>j<length (remainingSmallerFinalsVec st).
            remainingSmallerFinalsVec (fold (neighbor_update i c) js st) ! j
              = (if j \<in> set js then remainingSmallerFinalsVec st ! j - 1
                 else remainingSmallerFinalsVec st ! j)) \<and>
         (\<forall>j<length (cp_vec st).
            cp_vec (fold (neighbor_update i c) js st) ! j
              = (if c \<and> j \<in> set js \<and> i < cp_vec st ! j then i else cp_vec st ! j)) \<and>
         should_continue (fold (neighbor_update i c) js st) = (should_continue st \<or> js \<noteq> []) \<and>
         fault (fold (neighbor_update i c) js st) = fault st \<and>
         numIterations (fold (neighbor_update i c) js st) = numIterations st"
  using assms
proof (induction js arbitrary: st)
  case Nil
  then show ?case by simp
next
  case (Cons a js)
  let ?s = "neighbor_update i c a st"
  from Cons.prems have a: "a < length (remainingSmallerFinalsVec st)" "a < length (cp_vec st)"
    "1 \<le> remainingSmallerFinalsVec st ! a" and ajs: "a \<notin> set js" and djs: "distinct js"
    by simp_all
  note ch = neighbor_update_char[OF a, of i c]
  have pre: "\<forall>j\<in>set js. j < length (remainingSmallerFinalsVec ?s) \<and> j < length (cp_vec ?s)
            \<and> 1 \<le> remainingSmallerFinalsVec ?s ! j"
  proof
    fix j assume j: "j \<in> set js"
    with ajs have "j \<noteq> a" by auto
    with j Cons.prems(2) show "j < length (remainingSmallerFinalsVec ?s) \<and> j < length (cp_vec ?s)
            \<and> 1 \<le> remainingSmallerFinalsVec ?s ! j"
      by (simp add: ch(1))
  qed
  note IH = Cons.IH[OF djs pre]
  show ?case
  proof (intro conjI allI impI)
    fix j assume j: "j < length (remainingSmallerFinalsVec st)"
    then have "remainingSmallerFinalsVec (fold (neighbor_update i c) js ?s) ! j
       = (if j \<in> set js then remainingSmallerFinalsVec ?s ! j - 1 else remainingSmallerFinalsVec ?s ! j)"
      using IH by simp
    then show "remainingSmallerFinalsVec (fold (neighbor_update i c) (a # js) st) ! j
       = (if j \<in> set (a # js) then remainingSmallerFinalsVec st ! j - 1
          else remainingSmallerFinalsVec st ! j)"
      using ajs j by (cases "j = a") (auto simp: ch(1))
  next
    fix j assume j: "j < length (cp_vec st)"
    then have "cp_vec (fold (neighbor_update i c) js ?s) ! j
       = (if c \<and> j \<in> set js \<and> i < cp_vec ?s ! j then i else cp_vec ?s ! j)"
      using IH by simp
    then show "cp_vec (fold (neighbor_update i c) (a # js) st) ! j
       = (if c \<and> j \<in> set (a # js) \<and> i < cp_vec st ! j then i else cp_vec st ! j)"
      using ajs j by (cases "j = a") (auto simp: ch(2))
  next
    show "should_continue (fold (neighbor_update i c) (a # js) st) = (should_continue st \<or> a # js \<noteq> [])"
      using IH ch(3) by simp
    show "fault (fold (neighbor_update i c) (a # js) st) = fault st"
      using IH ch(4) by simp
    show "numIterations (fold (neighbor_update i c) (a # js) st) = numIterations st"
      using IH ch(5) by simp
  qed
qed

subsection \<open>The invariant of the wave loop\<close>

text \<open>
  \<open>emitted st\<close>: the vertices whose counter is negative.  \<open>smaller nn j\<close>: the ids
  below \<open>j\<close> that list \<open>j\<close> among their bigger neighbours.
\<close>

definition emitted :: "'a weld_state_scheme \<Rightarrow> nat set" where
  "emitted st =
    {i. i < length (remainingSmallerFinalsVec st) \<and> remainingSmallerFinalsVec st ! i < 0}"

definition smaller :: "nat list list \<Rightarrow> nat \<Rightarrow> nat set" where
  "smaller nn j = {k. k < j \<and> j \<in> set (nn ! k)}"

text \<open>
  The neighbour lists of \<open>n\<close> vertices are well formed when every list is duplicate
  free and holds ids in range that are bigger than its owner.
\<close>

definition wf_neighbours :: "nat list list \<Rightarrow> nat \<Rightarrow> bool" where
  "wf_neighbours nn n \<longleftrightarrow>
    length nn = n \<and> (\<forall>i<n. distinct (nn ! i) \<and> (\<forall>j\<in>set (nn ! i). i < j \<and> j < n))"

text \<open>
  Between two iteration bodies: an emitted vertex has counter \<open>-1\<close> and all its smaller
  neighbours have emitted; the counter of any other vertex is the number of its smaller
  neighbours that have not emitted; and the parent of every vertex is the least emitted
  centroid among its smaller neighbours, or the vertex itself.
\<close>

definition weld_inv :: "nat list list \<Rightarrow> 'a weld_state_scheme \<Rightarrow> bool" where
  "weld_inv nn st \<longleftrightarrow>
    length (cp_vec st) = length nn \<and> length (remainingSmallerFinalsVec st) = length nn \<and>
    \<not> fault st \<and>
    (\<forall>j<length nn.
       (remainingSmallerFinalsVec st ! j < 0 \<longrightarrow>
          remainingSmallerFinalsVec st ! j = - 1 \<and> smaller nn j \<subseteq> emitted st) \<and>
       (0 \<le> remainingSmallerFinalsVec st ! j \<longrightarrow>
          remainingSmallerFinalsVec st ! j = int (card (smaller nn j - emitted st)))) \<and>
    (\<forall>j<length nn.
       cp_vec st ! j = Min (insert j {k \<in> smaller nn j \<inter> emitted st. cp_vec st ! k = k}))"

lemma finite_smaller [simp]: "finite (smaller nn j)"
proof -
  have "smaller nn j \<subseteq> {..<j}" by (auto simp: smaller_def)
  then show ?thesis by (rule finite_subset) simp
qed

lemma smaller_less: "k \<in> smaller nn j \<Longrightarrow> k < j"
  by (simp add: smaller_def)

lemma wf_neighboursD:
  assumes "wf_neighbours nn n" "i < n"
  shows "distinct (nn ! i)" and "\<And>j. j \<in> set (nn ! i) \<Longrightarrow> i < j \<and> j < n"
  using assms unfolding wf_neighbours_def by blast+

lemma smaller_iff:
  assumes "wf_neighbours nn n" "k < n"
  shows "k \<in> smaller nn j \<longleftrightarrow> j \<in> set (nn ! k)"
  using wf_neighboursD(2)[OF assms] by (auto simp: smaller_def)

lemma weld_invD:
  assumes "weld_inv nn st"
  shows "length (cp_vec st) = length nn" "length (remainingSmallerFinalsVec st) = length nn"
    "\<not> fault st"
    "\<And>j. j < length nn \<Longrightarrow> remainingSmallerFinalsVec st ! j < 0 \<Longrightarrow>
       remainingSmallerFinalsVec st ! j = - 1 \<and> smaller nn j \<subseteq> emitted st"
    "\<And>j. j < length nn \<Longrightarrow> 0 \<le> remainingSmallerFinalsVec st ! j \<Longrightarrow>
       remainingSmallerFinalsVec st ! j = int (card (smaller nn j - emitted st))"
    "\<And>j. j < length nn \<Longrightarrow>
       cp_vec st ! j = Min (insert j {k \<in> smaller nn j \<inter> emitted st. cp_vec st ! k = k})"
  using assms unfolding weld_inv_def by blast+

lemma active_neighbours_pending:
  assumes wf: "wf_neighbours nn n" and inv: "weld_inv nn st"
    and i: "i < n" and zero: "remainingSmallerFinalsVec st ! i = 0"
    and j: "j \<in> set (nn ! i)"
  shows "1 \<le> remainingSmallerFinalsVec st ! j" and "j \<notin> emitted st" and "i < j" and "j < n"
proof -
  from wf have n: "length nn = n" by (simp add: wf_neighbours_def)
  from wf_neighboursD(2)[OF wf i j] show ij: "i < j" and jn: "j < n" by simp_all
  from weld_invD(2)[OF inv] n i zero have iE: "i \<notin> emitted st" by (simp add: emitted_def)
  from ij j have ism: "i \<in> smaller nn j" by (simp add: smaller_def)
  have nonneg: "0 \<le> remainingSmallerFinalsVec st ! j"
  proof (rule ccontr)
    assume "\<not> 0 \<le> remainingSmallerFinalsVec st ! j"
    then have "smaller nn j \<subseteq> emitted st" using weld_invD(4)[OF inv, of j] jn n by simp
    with ism iE show False by blast
  qed
  then show "j \<notin> emitted st" by (simp add: emitted_def)
  have "i \<in> smaller nn j - emitted st" using ism iE by simp
  then have "0 < card (smaller nn j - emitted st)"
    by (metis card_gt_0_iff empty_iff finite_Diff finite_smaller)
  with weld_invD(5)[OF inv, of j] jn n nonneg show "1 \<le> remainingSmallerFinalsVec st ! j" by simp
qed

lemma weld_inv_step:
  assumes wf: "wf_neighbours nn n" and inv: "weld_inv nn st"
    and i: "i < n" and zero: "remainingSmallerFinalsVec st ! i = 0"
    and len: "length (cp_vec st') = n" "length (remainingSmallerFinalsVec st') = n"
    and flt: "\<not> fault st'"
    and r': "\<And>j. j < n \<Longrightarrow> remainingSmallerFinalsVec st' ! j =
              (if j = i then - 1 else if j \<in> set (nn ! i) then remainingSmallerFinalsVec st ! j - 1
               else remainingSmallerFinalsVec st ! j)"
    and c': "\<And>j. j < n \<Longrightarrow> cp_vec st' ! j =
              (if cp_vec st ! i = i \<and> j \<in> set (nn ! i) \<and> i < cp_vec st ! j then i
               else cp_vec st ! j)"
  shows "weld_inv nn st'" and "emitted st' = insert i (emitted st)"
proof -
  let ?r = "remainingSmallerFinalsVec st" and ?r' = "remainingSmallerFinalsVec st'"
  let ?E = "emitted st" and ?E' = "emitted st'"
  let ?js = "set (nn ! i)"
  from wf have n: "length nn = n" by (simp add: wf_neighbours_def)
  note D = weld_invD[OF inv]
  have lr: "length ?r = n" using D(2) n by simp
  have pend: "\<And>j. j \<in> ?js \<Longrightarrow> 1 \<le> ?r ! j \<and> j \<notin> ?E \<and> i < j \<and> j < n"
    using active_neighbours_pending[OF wf inv i zero] by blast
  have iE: "i \<notin> ?E" using zero by (simp add: emitted_def)
  have ijs: "i \<notin> ?js" using pend by blast
  show E': "?E' = insert i ?E"
  proof (rule set_eqI)
    fix j
    show "j \<in> ?E' \<longleftrightarrow> j \<in> insert i ?E"
    proof (cases "j < n")
      case False
      then show ?thesis using i len lr by (auto simp: emitted_def)
    next
      case jn: True
      show ?thesis
      proof (cases "j = i")
        case True
        then show ?thesis using r'[OF jn] jn len by (simp add: emitted_def)
      next
        case ji: False
        show ?thesis
        proof (cases "j \<in> ?js")
          case True
          with pend[OF True] r'[OF jn] ji jn len lr show ?thesis by (simp add: emitted_def)
        next
          case False
          with r'[OF jn] ji jn len lr show ?thesis by (simp add: emitted_def)
        qed
      qed
    qed
  qed
  have smi: "smaller nn i \<subseteq> ?E"
  proof -
    have "?r ! i = int (card (smaller nn i - ?E))" using D(5)[of i] i n zero by simp
    with zero have "card (smaller nn i - ?E) = 0" by simp
    then have "smaller nn i - ?E = {}" by simp
    then show ?thesis by blast
  qed
  have sm_js: "\<And>j. j < n \<Longrightarrow> i \<in> smaller nn j \<longleftrightarrow> j \<in> ?js"
    using smaller_iff[OF wf i] by simp
  have cpE: "\<And>k. k \<in> ?E' \<Longrightarrow> cp_vec st' ! k = cp_vec st ! k"
  proof -
    fix k assume k: "k \<in> ?E'"
    then have kn: "k < n" using len by (simp add: emitted_def)
    from k E' pend have "k \<notin> ?js" by auto
    then show "cp_vec st' ! k = cp_vec st ! k" using c'[OF kn] by simp
  qed
  show "weld_inv nn st'"
    unfolding weld_inv_def
  proof (intro conjI allI impI)
    show "length (cp_vec st') = length nn" using len n by simp
    show "length ?r' = length nn" using len n by simp
    show "\<not> fault st'" by (rule flt)
  next
    fix j assume "j < length nn" and neg: "?r' ! j < 0"
    then have jn: "j < n" using n by simp
    from neg jn len have jE': "j \<in> ?E'" by (simp add: emitted_def)
    show "?r' ! j = - 1"
    proof (cases "j = i")
      case True then show ?thesis using r'[OF jn] by simp
    next
      case False
      with jE' E' have jE: "j \<in> ?E" by simp
      then have "j \<notin> ?js" using pend by blast
      moreover from jE have "?r ! j < 0" by (simp add: emitted_def)
      ultimately show ?thesis using r'[OF jn] False D(4)[of j] jn n by simp
    qed
    show "smaller nn j \<subseteq> ?E'"
    proof (cases "j = i")
      case True then show ?thesis using smi by (auto simp: E')
    next
      case False
      with jE' E' have jE: "j \<in> ?E" by simp
      then have "?r ! j < 0" by (simp add: emitted_def)
      then have "smaller nn j \<subseteq> ?E" using D(4)[of j] jn n by simp
      then show ?thesis by (auto simp: E')
    qed
  next
    fix j assume "j < length nn" and nonneg: "0 \<le> ?r' ! j"
    then have jn: "j < n" using n by simp
    from nonneg r'[OF jn] have ji: "j \<noteq> i" by auto
    show "?r' ! j = int (card (smaller nn j - ?E'))"
    proof (cases "j \<in> ?js")
      case True
      from pend[OF True] have p: "1 \<le> ?r ! j" "j \<notin> ?E" by simp_all
      then have rj: "?r ! j = int (card (smaller nn j - ?E))" using D(5)[of j] jn n by simp
      have mem: "i \<in> smaller nn j - ?E" using sm_js[OF jn] True iE by simp
      have "smaller nn j - ?E' = (smaller nn j - ?E) - {i}" by (auto simp: E')
      then have "card (smaller nn j - ?E') = card (smaller nn j - ?E) - 1"
        using mem by (simp add: card_Diff_singleton)
      moreover have "0 < card (smaller nn j - ?E)" using p(1) rj by simp
      ultimately have "int (card (smaller nn j - ?E')) = int (card (smaller nn j - ?E)) - 1"
        by simp
      then show ?thesis using r'[OF jn] ji True rj by simp
    next
      case False
      then have "i \<notin> smaller nn j" using sm_js[OF jn] by simp
      then have eq: "smaller nn j - ?E' = smaller nn j - ?E" by (auto simp: E')
      from r'[OF jn] ji False have same: "?r' ! j = ?r ! j" by simp
      with nonneg have "?r ! j = int (card (smaller nn j - ?E))" using D(5)[of j] jn n by simp
      then show ?thesis using same eq by simp
    qed
  next
    fix j assume "j < length nn"
    then have jn: "j < n" using n by simp
    let ?A = "{k \<in> smaller nn j \<inter> ?E. cp_vec st ! k = k}"
    let ?A' = "{k \<in> smaller nn j \<inter> ?E'. cp_vec st' ! k = k}"
    have old: "cp_vec st ! j = Min (insert j ?A)" using D(6)[of j] jn n by simp
    have A'1: "?A' = {k \<in> smaller nn j \<inter> ?E'. cp_vec st ! k = k}"
      using cpE by auto
    have finA: "finite ?A" by simp
    show "cp_vec st' ! j = Min (insert j ?A')"
    proof (cases "j \<in> ?js \<and> cp_vec st ! i = i")
      case True
      then have "i \<in> smaller nn j" using sm_js[OF jn] by simp
      with True E' have A': "?A' = insert i ?A" unfolding A'1 by auto
      have "Min (insert j ?A') = Min (insert i (insert j ?A))"
        unfolding A' by (simp add: insert_commute)
      also have "\<dots> = min i (Min (insert j ?A))"
        using finA by (subst Min_insert) simp_all
      also have "\<dots> = min i (cp_vec st ! j)" using old by simp
      finally show ?thesis using c'[OF jn] True by (simp add: min_def)
    next
      case False
      have A': "?A' = ?A"
      proof (cases "j \<in> ?js")
        case True
        with False have "cp_vec st ! i \<noteq> i" by simp
        then show ?thesis unfolding A'1 using E' by auto
      next
        case F2: False
        then have "i \<notin> smaller nn j" using sm_js[OF jn] by simp
        then show ?thesis unfolding A'1 using E' by auto
      qed
      from False c'[OF jn] have "cp_vec st' ! j = cp_vec st ! j" by auto
      then show ?thesis using old A' by simp
    qed
  qed
qed

lemma wave_body_idle:
  "remainingSmallerFinalsVec st ! i \<noteq> 0 \<Longrightarrow> wave_body nn i st = st"
  by (simp add: wave_body_def)

lemma wave_body_active:
  assumes wf: "wf_neighbours nn n" and inv: "weld_inv nn st"
    and i: "i < n" and zero: "remainingSmallerFinalsVec st ! i = 0"
  shows "\<And>j. j < n \<Longrightarrow> remainingSmallerFinalsVec (wave_body nn i st) ! j =
              (if j = i then - 1 else if j \<in> set (nn ! i) then remainingSmallerFinalsVec st ! j - 1
               else remainingSmallerFinalsVec st ! j)"
    and "\<And>j. j < n \<Longrightarrow> cp_vec (wave_body nn i st) ! j =
              (if cp_vec st ! i = i \<and> j \<in> set (nn ! i) \<and> i < cp_vec st ! j then i
               else cp_vec st ! j)"
    and "should_continue (wave_body nn i st) = (should_continue st \<or> nn ! i \<noteq> [])"
    and "fault (wave_body nn i st) = fault st"
    and "numIterations (wave_body nn i st) = numIterations st"
proof -
  let ?r = "remainingSmallerFinalsVec st"
  let ?st1 = "st\<lparr>remainingSmallerFinalsVec := ?r[i := ?r ! i - 1]\<rparr>"
  let ?c = "cp_vec st ! i = i"
  from wf have n: "length nn = n" by (simp add: wf_neighbours_def)
  note D = weld_invD[OF inv]
  have lr: "length ?r = n" and lc: "length (cp_vec st) = n" using D(1,2) n by simp_all
  have eq: "wave_body nn i st = fold (neighbor_update i ?c) (nn ! i) ?st1"
    using zero by (simp add: wave_body_def Let_def)
  have pend: "\<And>j. j \<in> set (nn ! i) \<Longrightarrow> 1 \<le> ?r ! j \<and> i < j \<and> j < n"
    using active_neighbours_pending[OF wf inv i zero] by blast
  have pre: "\<forall>j\<in>set (nn ! i). j < length (remainingSmallerFinalsVec ?st1) \<and> j < length (cp_vec ?st1)
            \<and> 1 \<le> remainingSmallerFinalsVec ?st1 ! j"
  proof
    fix j assume j: "j \<in> set (nn ! i)"
    from pend[OF j] have "j \<noteq> i" "j < n" "1 \<le> ?r ! j" by simp_all
    then show "j < length (remainingSmallerFinalsVec ?st1) \<and> j < length (cp_vec ?st1)
            \<and> 1 \<le> remainingSmallerFinalsVec ?st1 ! j"
      using lr lc by simp
  qed
  note ch = fold_neighbor_update_char[OF wf_neighboursD(1)[OF wf i] pre, of i ?c]
  from ch have ch1: "\<And>j. j < n \<Longrightarrow> remainingSmallerFinalsVec (wave_body nn i st) ! j =
      (if j \<in> set (nn ! i) then remainingSmallerFinalsVec ?st1 ! j - 1
       else remainingSmallerFinalsVec ?st1 ! j)"
    unfolding eq using lr by simp
  from ch have ch2: "\<And>j. j < n \<Longrightarrow> cp_vec (wave_body nn i st) ! j =
      (if ?c \<and> j \<in> set (nn ! i) \<and> i < cp_vec ?st1 ! j then i else cp_vec ?st1 ! j)"
    unfolding eq using lc by simp
  show "remainingSmallerFinalsVec (wave_body nn i st) ! j =
              (if j = i then - 1 else if j \<in> set (nn ! i) then ?r ! j - 1 else ?r ! j)"
    if "j < n" for j
  proof (cases "j = i")
    case True
    then have "j \<notin> set (nn ! i)" using pend by blast
    then show ?thesis using ch1[OF that] True i lr zero by simp
  next
    case False
    then show ?thesis using ch1[OF that] by simp
  qed
  show "cp_vec (wave_body nn i st) ! j =
              (if ?c \<and> j \<in> set (nn ! i) \<and> i < cp_vec st ! j then i else cp_vec st ! j)"
    if "j < n" for j
    using ch2[OF that] by simp
  show "should_continue (wave_body nn i st) = (should_continue st \<or> nn ! i \<noteq> [])"
    using ch unfolding eq by simp
  show "fault (wave_body nn i st) = fault st" using ch unfolding eq by simp
  show "numIterations (wave_body nn i st) = numIterations st" using ch unfolding eq by simp
qed

lemma wave_body_inv:
  assumes wf: "wf_neighbours nn n" and inv: "weld_inv nn st" and i: "i < n"
  shows "weld_inv nn (wave_body nn i st)"
    and "emitted (wave_body nn i st) =
           (if remainingSmallerFinalsVec st ! i = 0 then insert i (emitted st) else emitted st)"
proof -
  from wf have n: "length nn = n" by (simp add: wf_neighbours_def)
  note D = weld_invD[OF inv]
  have both: "weld_inv nn (wave_body nn i st) \<and> emitted (wave_body nn i st) =
           (if remainingSmallerFinalsVec st ! i = 0 then insert i (emitted st) else emitted st)"
  proof (cases "remainingSmallerFinalsVec st ! i = 0")
    case True
    note A = wave_body_active[OF wf inv i True]
    have l1: "length (cp_vec (wave_body nn i st)) = n"
      and l2: "length (remainingSmallerFinalsVec (wave_body nn i st)) = n"
      and l3: "\<not> fault (wave_body nn i st)"
      using D(1,2,3) n A(4) by simp_all
    note S = weld_inv_step[OF wf inv i True l1 l2 l3 A(1) A(2)]
    from S show ?thesis using True by simp
  next
    case False
    then show ?thesis using inv by (simp add: wave_body_idle)
  qed
  from both show "weld_inv nn (wave_body nn i st)" by blast
  from both show "emitted (wave_body nn i st) =
           (if remainingSmallerFinalsVec st ! i = 0 then insert i (emitted st) else emitted st)"
    by blast
qed

text \<open>Along a work-shared loop: the invariant, growth of the emitted set, and progress.\<close>

lemma fold_wave_body_inv:
  assumes wf: "wf_neighbours nn n" and inv: "weld_inv nn st" and xs: "\<forall>i\<in>set xs. i < n"
  shows "weld_inv nn (fold (wave_body nn) xs st)"
    and "emitted st \<subseteq> emitted (fold (wave_body nn) xs st)"
    and "numIterations (fold (wave_body nn) xs st) = numIterations st"
proof -
  have "weld_inv nn (fold (wave_body nn) xs st) \<and> emitted st \<subseteq> emitted (fold (wave_body nn) xs st)
      \<and> numIterations (fold (wave_body nn) xs st) = numIterations st"
    using inv xs
  proof (induction xs arbitrary: st)
    case Nil
    then show ?case by simp
  next
    case (Cons i xs)
    from Cons.prems have i: "i < n" by simp
    note B = wave_body_inv[OF wf Cons.prems(1) i]
    have nI: "numIterations (wave_body nn i st) = numIterations st"
    proof (cases "remainingSmallerFinalsVec st ! i = 0")
      case True
      then show ?thesis by (rule wave_body_active(5)[OF wf Cons.prems(1) i])
    next
      case False
      then show ?thesis by (simp add: wave_body_idle)
    qed
    from Cons.IH[OF B(1)] Cons.prems(2)
    have "weld_inv nn (fold (wave_body nn) xs (wave_body nn i st))"
      "emitted (wave_body nn i st) \<subseteq> emitted (fold (wave_body nn) xs (wave_body nn i st))"
      "numIterations (fold (wave_body nn) xs (wave_body nn i st)) = numIterations (wave_body nn i st)"
      by simp_all
    moreover have "emitted st \<subseteq> emitted (wave_body nn i st)" using B(2) by auto
    ultimately show ?case using nI by auto
  qed
  then show "weld_inv nn (fold (wave_body nn) xs st)"
    and "emitted st \<subseteq> emitted (fold (wave_body nn) xs st)"
    and "numIterations (fold (wave_body nn) xs st) = numIterations st"
    by blast+
qed

lemma ready_when_smaller_emitted:
  assumes inv: "weld_inv nn st" and m: "m < length nn" and sm: "smaller nn m \<subseteq> emitted st"
    and un: "m \<notin> emitted st"
  shows "remainingSmallerFinalsVec st ! m = 0"
proof -
  note D = weld_invD[OF inv]
  from un m D(2) have "0 \<le> remainingSmallerFinalsVec st ! m" by (simp add: emitted_def)
  then have "remainingSmallerFinalsVec st ! m = int (card (smaller nn m - emitted st))"
    using D(5)[OF m] by simp
  moreover from sm have "smaller nn m - emitted st = {}" by blast
  ultimately show ?thesis by simp
qed

lemma fold_wave_body_progress:
  assumes wf: "wf_neighbours nn n" and inv: "weld_inv nn st" and xs: "\<forall>i\<in>set xs. i < n"
    and m: "m \<in> set xs" and sm: "smaller nn m \<subseteq> emitted st"
  shows "m \<in> emitted (fold (wave_body nn) xs st)"
  using inv xs m sm
proof (induction xs arbitrary: st)
  case Nil
  then show ?case by simp
next
  case (Cons i xs)
  from wf have n: "length nn = n" by (simp add: wf_neighbours_def)
  from Cons.prems have i: "i < n" by simp
  note B = wave_body_inv[OF wf Cons.prems(1) i]
  have mono: "emitted st \<subseteq> emitted (wave_body nn i st)" using B(2) by auto
  have xs: "\<forall>i\<in>set xs. i < n" using Cons.prems(2) by simp
  show ?case
  proof (cases "m \<in> emitted (wave_body nn i st)")
    case True
    then show ?thesis using fold_wave_body_inv(2)[OF wf B(1) xs] by auto
  next
    case False
    then have un: "m \<notin> emitted st" using mono by blast
    have "m \<noteq> i"
    proof
      assume "m = i"
      then have "remainingSmallerFinalsVec st ! i = 0"
        using ready_when_smaller_emitted[OF Cons.prems(1) _ Cons.prems(4) un] i n by simp
      with B(2) \<open>m = i\<close> False show False by simp
    qed
    with Cons.prems(3) have "m \<in> set xs" by simp
    moreover have "smaller nn m \<subseteq> emitted (wave_body nn i st)" using Cons.prems(4) mono by blast
    ultimately have "m \<in> emitted (fold (wave_body nn) xs (wave_body nn i st))"
      using Cons.IH[OF B(1) xs] by blast
    then show ?thesis by simp
  qed
qed

lemma fold_wave_body_quiet:
  assumes wf: "wf_neighbours nn n" and inv: "weld_inv nn st" and xs: "\<forall>i\<in>set xs. i < n"
    and V: "\<not> should_continue st \<longrightarrow> (\<forall>j\<in>V. remainingSmallerFinalsVec st ! j \<noteq> 0)"
    and Vn: "\<forall>j\<in>V. j < n"
    and quiet: "\<not> should_continue (fold (wave_body nn) xs st)"
  shows "\<forall>j\<in>V \<union> set xs. remainingSmallerFinalsVec (fold (wave_body nn) xs st) ! j \<noteq> 0"
  using inv xs V Vn quiet
proof (induction xs arbitrary: st V)
  case Nil
  then show ?case by simp
next
  case (Cons i xs)
  from Cons.prems have i: "i < n" by simp
  let ?s = "wave_body nn i st"
  note B = wave_body_inv[OF wf Cons.prems(1) i]
  have xs: "\<forall>i\<in>set xs. i < n" using Cons.prems(2) by simp
  have V': "\<not> should_continue ?s \<longrightarrow> (\<forall>j\<in>insert i V. remainingSmallerFinalsVec ?s ! j \<noteq> 0)"
  proof (cases "remainingSmallerFinalsVec st ! i = 0")
    case True
    note A = wave_body_active[OF wf Cons.prems(1) i True]
    show ?thesis
    proof (intro impI ballI)
      fix j assume q: "\<not> should_continue ?s" and j: "j \<in> insert i V"
      from q A(3) have nf: "\<not> should_continue st" and e: "nn ! i = []" by simp_all
      from j Cons.prems(4) i have jn: "j < n" by auto
      show "remainingSmallerFinalsVec ?s ! j \<noteq> 0"
      proof (cases "j = i")
        case True
        then show ?thesis using A(1)[OF jn] by simp
      next
        case False
        with j have "j \<in> V" by simp
        with nf Cons.prems(3) have "remainingSmallerFinalsVec st ! j \<noteq> 0" by blast
        then show ?thesis using A(1)[OF jn] False e by simp
      qed
    qed
  next
    case False
    then have "?s = st" by (rule wave_body_idle)
    then show ?thesis using False Cons.prems(3) by auto
  qed
  have Vn': "\<forall>j\<in>insert i V. j < n" using Cons.prems(4) i by simp
  have q': "\<not> should_continue (fold (wave_body nn) xs ?s)" using Cons.prems(5) by simp
  from Cons.IH[OF B(1) xs V' Vn' q'] show ?case by simp
qed

lemma emitted_flags [simp]:
  "emitted (st\<lparr>numIterations := a, should_continue := b\<rparr>) = emitted st"
  by (simp add: emitted_def)

lemma weld_inv_flags [simp]:
  "weld_inv nn (st\<lparr>numIterations := a, should_continue := b\<rparr>) = weld_inv nn st"
  by (simp add: weld_inv_def)

lemma wave_inv:
  assumes wf: "wf_neighbours nn n" and inv: "weld_inv nn st"
  shows "weld_inv nn (wave rt nn st)" and "emitted st \<subseteq> emitted (wave rt nn st)"
    and "numIterations (wave rt nn st) = numIterations st + 1"
proof -
  let ?st0 = "st\<lparr>numIterations := numIterations st + 1, should_continue := False\<rparr>"
  let ?xs = "omp_for rt (numIterations st) (length (remainingSmallerFinalsVec st))"
  from wf have n: "length nn = n" by (simp add: wf_neighbours_def)
  have lr: "length (remainingSmallerFinalsVec st) = n" using weld_invD(2)[OF inv] n by simp
  have inv0: "weld_inv nn ?st0" using inv by simp
  have xs: "\<forall>i\<in>set ?xs. i < n" using lr by simp
  note F = fold_wave_body_inv[OF wf inv0 xs]
  show "weld_inv nn (wave rt nn st)" using F(1) by (simp add: wave_def)
  show "emitted st \<subseteq> emitted (wave rt nn st)" using F(2) by (simp add: wave_def)
  show "numIterations (wave rt nn st) = numIterations st + 1" using F(3) by (simp add: wave_def)
qed

text \<open>The least vertex that has not emitted is ready, and the next wave emits it.\<close>

lemma wave_progress:
  assumes wf: "wf_neighbours nn n" and inv: "weld_inv nn st"
    and m: "m < n" and un: "m \<notin> emitted st" and least: "\<forall>k<m. k \<in> emitted st"
  shows "remainingSmallerFinalsVec st ! m = 0" and "m \<in> emitted (wave rt nn st)"
proof -
  let ?st0 = "st\<lparr>numIterations := numIterations st + 1, should_continue := False\<rparr>"
  let ?xs = "omp_for rt (numIterations st) (length (remainingSmallerFinalsVec st))"
  from wf have n: "length nn = n" by (simp add: wf_neighbours_def)
  have lr: "length (remainingSmallerFinalsVec st) = n" using weld_invD(2)[OF inv] n by simp
  have sm: "smaller nn m \<subseteq> emitted st" using least smaller_less by blast
  show "remainingSmallerFinalsVec st ! m = 0"
    using ready_when_smaller_emitted[OF inv _ sm un] m n by simp
  have inv0: "weld_inv nn ?st0" using inv by simp
  have xs: "\<forall>i\<in>set ?xs. i < n" using lr by simp
  have "m \<in> set ?xs" using m lr by simp
  moreover have "smaller nn m \<subseteq> emitted ?st0" using sm by simp
  ultimately have "m \<in> emitted (fold (wave_body nn) ?xs ?st0)"
    using fold_wave_body_progress[OF wf inv0 xs] by blast
  then show "m \<in> emitted (wave rt nn st)" by (simp add: wave_def)
qed

lemma emitted_subset: "weld_inv nn st \<Longrightarrow> emitted st \<subseteq> {..<length nn}"
  using weld_invD(2)[of nn st] by (auto simp: emitted_def)

lemma all_emitted_if_none_ready:
  assumes inv: "weld_inv nn st"
    and none: "\<forall>j<length nn. remainingSmallerFinalsVec st ! j \<noteq> 0"
  shows "emitted st = {..<length nn}"
proof -
  have "j \<in> emitted st" if "j < length nn" for j
    using that
  proof (induction j rule: less_induct)
    case (less j)
    show ?case
    proof (rule ccontr)
      assume un: "j \<notin> emitted st"
      have "smaller nn j \<subseteq> emitted st"
      proof
        fix k assume "k \<in> smaller nn j"
        then have "k < j" by (rule smaller_less)
        with less show "k \<in> emitted st" by simp
      qed
      from ready_when_smaller_emitted[OF inv less.prems this un] none less.prems
      show False by blast
    qed
  qed
  with emitted_subset[OF inv] show ?thesis by auto
qed

text \<open>A wave that leaves the flag down has left no vertex behind.\<close>

lemma wave_quiet:
  assumes wf: "wf_neighbours nn n" and inv: "weld_inv nn st"
    and quiet: "\<not> should_continue (wave rt nn st)"
  shows "emitted (wave rt nn st) = {..<n}"
proof -
  let ?st0 = "st\<lparr>numIterations := numIterations st + 1, should_continue := False\<rparr>"
  let ?xs = "omp_for rt (numIterations st) (length (remainingSmallerFinalsVec st))"
  from wf have n: "length nn = n" by (simp add: wf_neighbours_def)
  have lr: "length (remainingSmallerFinalsVec st) = n" using weld_invD(2)[OF inv] n by simp
  have inv0: "weld_inv nn ?st0" using inv by simp
  have xs: "\<forall>i\<in>set ?xs. i < n" using lr by simp
  have q: "\<not> should_continue (fold (wave_body nn) ?xs ?st0)" using quiet by (simp add: wave_def)
  have "\<forall>j\<in>{} \<union> set ?xs. remainingSmallerFinalsVec (fold (wave_body nn) ?xs ?st0) ! j \<noteq> 0"
    by (rule fold_wave_body_quiet[OF wf inv0 xs _ _ q]) simp_all
  then have "\<forall>j<length nn. remainingSmallerFinalsVec (wave rt nn st) ! j \<noteq> 0"
    using lr n by (simp add: wave_def)
  from all_emitted_if_none_ready[OF wave_inv(1)[OF wf inv] this] n show ?thesis by simp
qed

lemma wave_loop_inv:
  "wf_neighbours nn n \<Longrightarrow> weld_inv nn st \<Longrightarrow>
   (\<not> should_continue st \<longrightarrow> emitted st = {..<n}) \<Longrightarrow>
    weld_inv nn (wave_loop rt nn st) \<and> emitted (wave_loop rt nn st) = {..<n} \<and>
    \<not> should_continue (wave_loop rt nn st)"
proof (induction rt nn st rule: wave_loop.induct)
  case (1 rt nn st)
  note wf = "1.prems"(1) and inv = "1.prems"(2)
  show ?case
  proof (cases "should_continue st")
    case True
    have "weld_inv nn (wave rt nn st)" using wave_inv(1)[OF wf inv] .
    moreover have "\<not> should_continue (wave rt nn st) \<longrightarrow> emitted (wave rt nn st) = {..<n}"
      using wave_quiet[OF wf inv] by blast
    ultimately show ?thesis using "1.IH"[OF True wf] True by (subst (1 2 3) wave_loop.simps) simp
  next
    case False
    then show ?thesis using "1.prems" by (subst (1 2 3) wave_loop.simps) simp
  qed
qed

lemma neighbor_update_numIterations [simp]:
  "numIterations (neighbor_update i c j st) = numIterations st"
  by (simp add: neighbor_update_def Let_def)

lemma fold_neighbor_update_numIterations [simp]:
  "numIterations (fold (neighbor_update i c) js st) = numIterations st"
  by (induction js arbitrary: st) simp_all

lemma wave_body_numIterations [simp]:
  "numIterations (wave_body nn i st) = numIterations st"
  by (simp add: wave_body_def Let_def)

lemma fold_wave_body_numIterations [simp]:
  "numIterations (fold (wave_body nn) xs st) = numIterations st"
  by (induction xs arbitrary: st) simp_all

lemma wave_numIterations [simp]: "numIterations (wave rt nn st) = Suc (numIterations st)"
  by (simp add: wave_def)

text \<open>Every wave but the last emits a vertex: the loop runs at most once more than that.\<close>

lemma wave_loop_iterations:
  "numIterations (wave_loop rt nn st) + wave_measure (wave_loop rt nn st)
     \<le> numIterations st + wave_measure st"
proof (induction rt nn st rule: wave_loop.induct)
  case (1 rt nn st)
  show ?case
  proof (cases "should_continue st")
    case True
    from wave_measure_decreases[OF True, of rt nn] "1.IH"[OF True] True
    show ?thesis by (subst (1 2) wave_loop.simps) simp
  next
    case False
    then show ?thesis by (subst (1 2) wave_loop.simps) simp
  qed
qed

subsection \<open>The state after the initialisation loop\<close>

lemma dist2_sym: "dist2 p q = dist2 q p"
  by (simp add: dist2_def power2_commute)

lemma within_radius_sym: "within_radius r p q = within_radius r q p"
  by (simp add: within_radius_code dist2_sym)

lemma within_radius_self: "within_radius r p p \<longleftrightarrow> 0 \<le> r"
  by (simp add: within_radius_code dist2_def)

lemma within_radius_neg: "r < 0 \<Longrightarrow> \<not> within_radius r p q"
  by (simp add: within_radius_code)

lemma length_filter_upt: "length (filter P [0..<n]) = card {k. k < n \<and> P k}"
proof -
  have "length (filter P [0..<n]) = card {i. i < length [0..<n] \<and> P ([0..<n] ! i)}"
    by (rule length_filter_conv_card)
  also have "{i. i < length [0..<n] \<and> P ([0..<n] ! i)} = {k. k < n \<and> P k}" by auto
  finally show ?thesis .
qed

text \<open>The neighbour relation of the index over the vertices \<open>vs\<close>.\<close>

definition near :: "real \<Rightarrow> Vector3d list \<Rightarrow> nat \<Rightarrow> nat \<Rightarrow> bool" where
  "near eps vs i j \<longleftrightarrow> within_radius eps (vs ! i) (vs ! j)"

lemma near_sym: "near eps vs i j = near eps vs j i"
  by (simp add: near_def within_radius_sym)

lemma weld_init_nn:
  assumes "data kdtree = vs"
  shows "length (fst (weld_init kdtree eps vs)) = length vs"
    and "i < length vs \<Longrightarrow>
      fst (weld_init kdtree eps vs) ! i = filter (\<lambda>j. i < j \<and> near eps vs i j) [0..<length vs]"
  using assms by (simp_all add: weld_init_def Let_def SearchRadiusSmallerAndBigger_def near_def)

lemma weld_init_st:
  assumes "data kdtree = vs"
  shows "cp_vec (snd (weld_init kdtree eps vs)) = [0..<length vs]"
    and "length (remainingSmallerFinalsVec (snd (weld_init kdtree eps vs))) = length vs"
    and "i < length vs \<Longrightarrow> remainingSmallerFinalsVec (snd (weld_init kdtree eps vs)) ! i
          = int (card {k. k < length vs \<and> k \<le> i \<and> near eps vs i k}) - 1"
    and "should_continue (snd (weld_init kdtree eps vs))"
    and "numIterations (snd (weld_init kdtree eps vs)) = 0"
    and "\<not> fault (snd (weld_init kdtree eps vs))"
  using assms
  by (simp_all add: weld_init_def Let_def SearchRadiusSmallerAndBigger_def near_def
      length_filter_upt)

lemma weld_init_wf:
  assumes "data kdtree = vs"
  shows "wf_neighbours (fst (weld_init kdtree eps vs)) (length vs)"
  unfolding wf_neighbours_def using weld_init_nn[OF assms, where eps=eps] by auto

lemma weld_init_smaller:
  assumes "data kdtree = vs" and "j < length vs"
  shows "smaller (fst (weld_init kdtree eps vs)) j = {k. k < j \<and> near eps vs j k}"
proof -
  have "k \<in> smaller (fst (weld_init kdtree eps vs)) j \<longleftrightarrow> k < j \<and> near eps vs j k" for k
  proof (cases "k < j")
    case True
    with assms(2) have "k < length vs" by simp
    from weld_init_nn(2)[OF assms(1) this, where eps=eps] True assms(2) show ?thesis
      by (simp add: smaller_def near_sym[of eps vs k j])
  next
    case False
    then show ?thesis by (simp add: smaller_def)
  qed
  then show ?thesis by blast
qed

lemma weld_init_inv:
  assumes d: "data kdtree = vs"
  shows "weld_inv (fst (weld_init kdtree eps vs)) (snd (weld_init kdtree eps vs))"
proof -
  let ?nn = "fst (weld_init kdtree eps vs)" and ?st = "snd (weld_init kdtree eps vs)"
  let ?n = "length vs"
  note N = weld_init_nn[OF d, where eps=eps] and S = weld_init_st[OF d, where eps=eps]
  have cp: "\<And>j. j < ?n \<Longrightarrow> cp_vec ?st ! j = j" by (simp add: S(1))
  show ?thesis
  proof (cases "0 \<le> eps")
    case True
    have rem: "remainingSmallerFinalsVec ?st ! j = int (card (smaller ?nn j))" if j: "j < ?n" for j
    proof -
      have "{k. k < ?n \<and> k \<le> j \<and> near eps vs j k} = insert j (smaller ?nn j)"
        using j True by (auto simp: weld_init_smaller[OF d j] near_def within_radius_self)
      moreover have "j \<notin> smaller ?nn j" by (simp add: smaller_def)
      ultimately have "card {k. k < ?n \<and> k \<le> j \<and> near eps vs j k} = Suc (card (smaller ?nn j))"
        by simp
      then show ?thesis using S(3)[OF j] by simp
    qed
    have E: "emitted ?st = {}" using rem S(2) by (auto simp: emitted_def)
    show ?thesis
      unfolding weld_inv_def using rem cp E N(1) S(1,2,6) by simp
  next
    case False
    then have neg: "eps < 0" by simp
    have rem: "\<And>j. j < ?n \<Longrightarrow> remainingSmallerFinalsVec ?st ! j = - 1"
      using neg by (simp add: S(3) near_def within_radius_neg)
    have sm: "\<And>j. j < ?n \<Longrightarrow> smaller ?nn j = {}"
      using neg by (simp add: weld_init_smaller[OF d] near_def within_radius_neg)
    show ?thesis
      unfolding weld_inv_def using rem cp sm N(1) S(1,2,6) by simp
  qed
qed

subsection \<open>The state after the wave loop\<close>

lemma unemitted_le: "unemitted st \<le> length (remainingSmallerFinalsVec st)"
proof -
  have "{i. i < length (remainingSmallerFinalsVec st) \<and> 0 \<le> remainingSmallerFinalsVec st ! i}
      \<subseteq> {..<length (remainingSmallerFinalsVec st)}" by auto
  then have "unemitted st \<le> card {..<length (remainingSmallerFinalsVec st)}"
    unfolding unemitted_def by (intro card_mono) auto
  then show ?thesis by simp
qed

lemma weld_forward_final:
  assumes d: "data kdtree = vs"
  shows "weld_inv (fst (weld_init kdtree eps vs)) (weld_forward rt kdtree eps vs)"
    and "emitted (weld_forward rt kdtree eps vs) = {..<length vs}"
    and "\<not> should_continue (weld_forward rt kdtree eps vs)"
    and "numIterations (weld_forward rt kdtree eps vs) \<le> length vs + 1"
proof -
  let ?nn = "fst (weld_init kdtree eps vs)" and ?st0 = "snd (weld_init kdtree eps vs)"
  have eq: "weld_forward rt kdtree eps vs = wave_loop rt ?nn ?st0"
    by (simp add: weld_forward_def split_beta)
  note S = weld_init_st[OF d, where eps=eps]
  from wave_loop_inv[OF weld_init_wf[OF d] weld_init_inv[OF d], of eps rt] S(4)
  show "weld_inv ?nn (weld_forward rt kdtree eps vs)"
    and "emitted (weld_forward rt kdtree eps vs) = {..<length vs}"
    and "\<not> should_continue (weld_forward rt kdtree eps vs)"
    unfolding eq by simp_all
  have "numIterations (wave_loop rt ?nn ?st0) \<le> numIterations ?st0 + wave_measure ?st0"
    using wave_loop_iterations[of rt ?nn ?st0] by simp
  also have "\<dots> \<le> length vs + 1"
    using unemitted_le[of ?st0] S(2,4,5) by (simp add: wave_measure_def)
  finally show "numIterations (weld_forward rt kdtree eps vs) \<le> length vs + 1"
    unfolding eq .
qed

text \<open>
  When every vertex has emitted, the parent of a vertex is the least centroid among its
  smaller neighbours, or the vertex itself.
\<close>

lemma final_parents:
  assumes inv: "weld_inv nn st" and all: "emitted st = {..<length nn}" and j: "j < length nn"
  shows "cp_vec st ! j = Min (insert j {k \<in> smaller nn j. cp_vec st ! k = k})"
    and "cp_vec st ! j \<le> j"
    and "cp_vec st ! (cp_vec st ! j) = cp_vec st ! j"
    and "cp_vec st ! j \<noteq> j \<Longrightarrow> cp_vec st ! j \<in> smaller nn j"
proof -
  let ?A = "{k \<in> smaller nn j. cp_vec st ! k = k}"
  have "{k \<in> smaller nn j \<inter> emitted st. cp_vec st ! k = k} = ?A"
    using all j smaller_less by (fastforce simp: all)
  with weld_invD(6)[OF inv j] show M: "cp_vec st ! j = Min (insert j ?A)" by simp
  have fin: "finite (insert j ?A)" by simp
  from Min_le[OF fin, of j] M show "cp_vec st ! j \<le> j" by simp
  from Min_in[OF fin] M have mem: "cp_vec st ! j \<in> insert j ?A" by simp
  then show "cp_vec st ! (cp_vec st ! j) = cp_vec st ! j" by auto
  from mem show "cp_vec st ! j \<noteq> j \<Longrightarrow> cp_vec st ! j \<in> smaller nn j" by auto
qed

lemma weld_forward_parents:
  assumes d: "data kdtree = vs" and j: "j < length vs"
  shows "cp_vec (weld_forward rt kdtree eps vs) ! j =
           Min (insert j {k. k < j \<and> near eps vs j k \<and> cp_vec (weld_forward rt kdtree eps vs) ! k = k})"
    and "cp_vec (weld_forward rt kdtree eps vs) ! j \<le> j"
    and "cp_vec (weld_forward rt kdtree eps vs) ! (cp_vec (weld_forward rt kdtree eps vs) ! j)
           = cp_vec (weld_forward rt kdtree eps vs) ! j"
    and "length (cp_vec (weld_forward rt kdtree eps vs)) = length vs"
    and "\<not> fault (weld_forward rt kdtree eps vs)"
proof -
  let ?nn = "fst (weld_init kdtree eps vs)" and ?st = "weld_forward rt kdtree eps vs"
  note F = weld_forward_final[OF d, where eps=eps and rt=rt]
  have n: "length ?nn = length vs" by (rule weld_init_nn(1)[OF d])
  have j': "j < length ?nn" and all: "emitted ?st = {..<length ?nn}" using j n F(2) by simp_all
  note P = final_parents[OF F(1) all j']
  have "{k \<in> smaller ?nn j. cp_vec ?st ! k = k} = {k. k < j \<and> near eps vs j k \<and> cp_vec ?st ! k = k}"
    by (auto simp: weld_init_smaller[OF d j])
  with P(1) show "cp_vec ?st ! j = Min (insert j {k. k < j \<and> near eps vs j k \<and> cp_vec ?st ! k = k})"
    by simp
  show "cp_vec ?st ! j \<le> j" by (rule P(2))
  show "cp_vec ?st ! (cp_vec ?st ! j) = cp_vec ?st ! j" by (rule P(3))
  show "length (cp_vec ?st) = length vs" using weld_invD(1)[OF F(1)] n by simp
  show "\<not> fault ?st" by (rule weld_invD(3)[OF F(1)])
qed

subsection \<open>The result of \<open>merge_vertices_forward\<close>\<close>

text \<open>A mesh is valid when every triangle id is a vertex id.\<close>

definition valid_triangle :: "nat \<Rightarrow> nat \<times> nat \<times> nat \<Rightarrow> bool" where
  "valid_triangle n t = (case t of (a, b, c) \<Rightarrow> a < n \<and> b < n \<and> c < n)"

definition valid_mesh :: "TriangleMesh \<Rightarrow> bool" where
  "valid_mesh mesh = list_all (valid_triangle (length (vertices mesh))) (triangles mesh)"

definition renumber :: "nat list \<Rightarrow> nat \<times> nat \<times> nat \<Rightarrow> nat \<times> nat \<times> nat" where
  "renumber p2c t = (case t of (a, b, c) \<Rightarrow> (p2c ! a, p2c ! b, p2c ! c))"

lemma rewrite_triangles_valid:
  "list_all (valid_triangle (length p2c)) ts \<Longrightarrow> rewrite_triangles p2c ts = Inr (map (renumber p2c) ts)"
  by (induction ts) (auto simp: rewrite_triangle_def valid_triangle_def renumber_def)

lemma merge_vertices_forward_result:
  assumes d: "data kdtree = vertices mesh" and v: "valid_mesh mesh"
  shows "\<exists>p2c nv.
      reduce (vertices mesh) (replicate (length (vertices mesh)) 0) []
        (cp_vec (weld_forward rt kdtree eps (vertices mesh))) (length (vertices mesh)) = Inr (p2c, nv) \<and>
      merge_vertices_forward rt kdtree eps mesh
        = Inr (mesh\<lparr>triangles := map (renumber p2c) (triangles mesh), vertices := nv\<rparr>) \<and>
      length p2c = length (vertices mesh)"
proof -
  let ?vs = "vertices mesh" and ?n = "length (vertices mesh)"
  let ?st = "weld_forward rt kdtree eps ?vs"
  note P = weld_forward_parents[OF d, where eps=eps and rt=rt]
  have le: "\<forall>i<?n. cp_vec ?st ! i \<le> i" using P(2) by blast
  have lc: "length (cp_vec ?st) = ?n"
  proof (cases "?n = 0")
    case True
    then show ?thesis
      by (simp add: weld_forward_def weld_init_def wave_loop.simps[of rt "[]"] wave_def omp_for_def)
  next
    case False
    then have "0 < ?n" by simp
    from P(4)[OF this] show ?thesis .
  qed
  have nf: "\<not> fault ?st"
  proof (cases "?n = 0")
    case True
    then show ?thesis
      by (simp add: weld_forward_def weld_init_def wave_loop.simps[of rt "[]"] wave_def omp_for_def)
  next
    case False
    then have "0 < ?n" by simp
    from P(5)[OF this] show ?thesis .
  qed
  from reduce_result[OF lc refl _ le, of "replicate ?n 0"] obtain p2c nv where
    r: "reduce ?vs (replicate ?n 0) [] (cp_vec ?st) ?n = Inr (p2c, nv)" "length p2c = ?n"
    by auto
  have "rewrite_triangles p2c (triangles mesh) = Inr (map (renumber p2c) (triangles mesh))"
    using v r(2) by (intro rewrite_triangles_valid) (simp add: valid_mesh_def)
  then have "merge_vertices_forward rt kdtree eps mesh
        = Inr (mesh\<lparr>triangles := map (renumber p2c) (triangles mesh), vertices := nv\<rparr>)"
    using r(1) nf by (simp add: merge_vertices_forward_def Let_def)
  with r show ?thesis by blast
qed

text \<open>
  When no two different vertices are within \<open>eps\<close> of each other, every vertex is its
  own parent and the welder returns the mesh as it was.
\<close>

lemma centroids_id: "n \<le> length cp \<Longrightarrow> \<forall>i<length cp. cp ! i = i \<Longrightarrow> centroids cp n = {..<n}"
  by (auto simp: centroids_def)

lemma reduce_identity:
  assumes lc: "length cp = n" and lv: "length vs = n" and id: "\<forall>i<n. cp ! i = i"
  shows "reduce vs (replicate n 0) [] cp n = Inr ([0..<n], vs)"
proof -
  have le: "\<forall>i<n. cp ! i \<le> i" using id by simp
  from reduce_result[OF lc lv _ le, of "replicate n 0"] obtain p2c nv where
    r: "reduce vs (replicate n 0) [] cp n = Inr (p2c, nv)" "length p2c = n"
      "length nv = card (centroids cp n)"
      "\<forall>i<n. cp ! i = i \<longrightarrow> p2c ! i = card (centroids cp i)"
      "\<forall>c<length nv. members p2c n c \<noteq> {} \<and>
         nv ! c = (\<Sum>i\<in>members p2c n c. vs ! i) /\<^sub>R real (card (members p2c n c))"
    by auto
  have cen: "\<And>k. k \<le> n \<Longrightarrow> centroids cp k = {..<k}"
    using id lc by (auto simp: centroids_def)
  have p: "\<And>i. i < n \<Longrightarrow> p2c ! i = i" using r(4) id cen by simp
  have p2c: "p2c = [0..<n]" using r(2) p by (intro nth_equalityI) simp_all
  have ln: "length nv = n" using r(3) cen[of n] by simp
  have mem: "\<And>c. c < n \<Longrightarrow> members p2c n c = {c}" using p by (auto simp: members_def)
  have "nv = vs"
  proof (rule nth_equalityI)
    show "length nv = length vs" using ln lv by simp
    fix c assume "c < length nv"
    then have c: "c < n" using ln by simp
    with r(5) ln have "nv ! c = (\<Sum>i\<in>members p2c n c. vs ! i) /\<^sub>R real (card (members p2c n c))"
      by simp
    then show "nv ! c = vs ! c" by (simp add: mem[OF c])
  qed
  with r(1) p2c show ?thesis by simp
qed

lemma renumber_id: "valid_triangle n t \<Longrightarrow> renumber [0..<n] t = t"
  by (auto simp: valid_triangle_def renumber_def split: prod.splits)

lemma map_renumber_id:
  "list_all (valid_triangle n) ts \<Longrightarrow> map (renumber [0..<n]) ts = ts"
  by (induction ts) (simp_all add: renumber_id)

lemma isolated_parent:
  assumes d: "data kdtree = vs" and j: "j < length vs"
    and iso: "\<forall>k<j. \<not> near eps vs j k"
  shows "cp_vec (weld_forward rt kdtree eps vs) ! j = j"
proof -
  have "{k. k < j \<and> near eps vs j k \<and> cp_vec (weld_forward rt kdtree eps vs) ! k = k} = {}"
    using iso by blast
  with weld_forward_parents(1)[OF d j, of rt eps] show ?thesis by simp
qed

lemma merge_vertices_forward_isolated:
  assumes v: "valid_mesh mesh"
    and iso: "\<forall>i<length (vertices mesh). \<forall>j<length (vertices mesh).
                near eps (vertices mesh) i j \<longrightarrow> i = j"
  shows "merge_vertices_forward rt (KDTreeFlann_of mesh) eps mesh = Inr mesh"
proof -
  let ?vs = "vertices mesh" and ?kd = "KDTreeFlann_of mesh"
  let ?n = "length ?vs"
  let ?st = "weld_forward rt ?kd eps ?vs"
  have d: "data ?kd = ?vs" by (simp add: KDTreeFlann_of_def)
  from merge_vertices_forward_result[OF d v, of rt eps] obtain p2c nv where
    r: "reduce ?vs (replicate ?n 0) [] (cp_vec ?st) ?n = Inr (p2c, nv)"
       "merge_vertices_forward rt ?kd eps mesh
          = Inr (mesh\<lparr>triangles := map (renumber p2c) (triangles mesh), vertices := nv\<rparr>)"
    by blast
  have id: "\<forall>j<?n. cp_vec ?st ! j = j"
  proof (intro allI impI)
    fix j assume j: "j < ?n"
    have "\<forall>k<j. \<not> near eps ?vs j k" using iso j by (metis less_irrefl less_trans)
    then show "cp_vec ?st ! j = j" by (rule isolated_parent[OF d j])
  qed
  have lc: "length (cp_vec ?st) = ?n"
  proof (cases "?n = 0")
    case True
    then show ?thesis
      by (simp add: weld_forward_def weld_init_def wave_loop.simps[of rt "[]"] wave_def omp_for_def)
  next
    case False
    then have "0 < ?n" by simp
    from weld_forward_parents(4)[OF d this] show ?thesis .
  qed
  from reduce_identity[OF lc refl id] r(1) have "p2c = [0..<?n]" "nv = ?vs" by simp_all
  moreover have "map (renumber [0..<?n]) (triangles mesh) = triangles mesh"
    using v by (intro map_renumber_id) (simp add: valid_mesh_def)
  ultimately show ?thesis using r(2) by simp
qed

section \<open>Properties of \<open>merge_vertices_forward\<close>\<close>

text \<open>
  \<^verbatim>\<open>TriangleMesh(vertices, triangles)\<close>: the constructor that both drivers use (through
  \<^verbatim>\<open>TriangleMeshPWeld(triangle_mesh)\<close>); the other fields start empty.
\<close>

definition TriangleMesh_of :: "Vector3d list \<Rightarrow> (nat \<times> nat \<times> nat) list \<Rightarrow> TriangleMesh" where
  "TriangleMesh_of vs ts =
    \<lparr>vertices = vs, vertex_normals = [], vertex_colors = [], triangles = ts,
     triangle_normals = [], adjacency_list = []\<rparr>"

text \<open>
  Claim C10.  When \<open>merge_vertices_forward\<close> returns, the mesh differs from the one it
  was called on in \<open>vertices\<close> and \<open>triangles\<close> only: the vertex normals, the vertex
  colours, the triangle normals and the adjacency list are the ones from before the call.
\<close>

theorem merge_vertices_forward_frame:
  assumes "merge_vertices_forward rt kdtree eps mesh = Inr mesh'"
  shows "vertex_normals mesh' = vertex_normals mesh \<and>
         vertex_colors mesh' = vertex_colors mesh \<and>
         triangle_normals mesh' = triangle_normals mesh \<and>
         adjacency_list mesh' = adjacency_list mesh \<and>
         mesh' = mesh\<lparr>vertices := vertices mesh', triangles := triangles mesh'\<rparr>"
  using assms
  by (auto simp: merge_vertices_forward_def Let_def split: if_splits sum.splits prod.splits)

text \<open>
  Two vertices in range of each other, each with a normal and a colour: the weld leaves
  one vertex and still two normals and two colours.
\<close>

theorem merge_vertices_forward_frame_witness:
  "merge_vertices_forward sequential
     (KDTreeFlann_of
       \<lparr>vertices = [Vector3d 0 0 0, Vector3d (1/2) 0 0],
        vertex_normals = [Vector3d 0 0 1, Vector3d 0 1 0],
        vertex_colors = [Vector3d 1 0 0, Vector3d 0 1 0],
        triangles = [(0, 0, 1)], triangle_normals = [Vector3d 0 0 1],
        adjacency_list = [{1}, {0}]\<rparr>) 1
     \<lparr>vertices = [Vector3d 0 0 0, Vector3d (1/2) 0 0],
      vertex_normals = [Vector3d 0 0 1, Vector3d 0 1 0],
      vertex_colors = [Vector3d 1 0 0, Vector3d 0 1 0],
      triangles = [(0, 0, 1)], triangle_normals = [Vector3d 0 0 1],
      adjacency_list = [{1}, {0}]\<rparr>
   = Inr \<lparr>vertices = [Vector3d (1/4) 0 0],
      vertex_normals = [Vector3d 0 0 1, Vector3d 0 1 0],
      vertex_colors = [Vector3d 1 0 0, Vector3d 0 1 0],
      triangles = [(0, 0, 0)], triangle_normals = [Vector3d 0 0 1],
      adjacency_list = [{1}, {0}]\<rparr>"
proof -
  let ?m = "\<lparr>vertices = [Vector3d 0 0 0, Vector3d (1/2) 0 0],
      vertex_normals = [Vector3d 0 0 1, Vector3d 0 1 0],
      vertex_colors = [Vector3d 1 0 0, Vector3d 0 1 0],
      triangles = [(0, 0, 1)], triangle_normals = [Vector3d 0 0 1],
      adjacency_list = [{1::nat}, {0}]\<rparr>"
  have v: "valid_mesh ?m" by (simp add: valid_mesh_def valid_triangle_def)
  have d: "data (KDTreeFlann_of ?m) = vertices ?m" by (simp add: KDTreeFlann_of_def)
  from merge_vertices_forward_result[OF d v, of sequential 1] obtain m' where
    m': "merge_vertices_forward sequential (KDTreeFlann_of ?m) 1 ?m = Inr m'" by blast
  have vt: "map_sum id vertices (merge_vertices_forward sequential (KDTreeFlann_of ?m) 1 ?m)
      = Inr [Vector3d (1/4) 0 0]"
    by code_simp
  have tt: "map_sum id triangles (merge_vertices_forward sequential (KDTreeFlann_of ?m) 1 ?m)
      = Inr [(0, 0, 0)]"
    by code_simp
  from vt tt m' have "vertices m' = [Vector3d (1/4) 0 0]" "triangles m' = [(0, 0, 0)]"
    by simp_all
  with merge_vertices_forward_frame[OF m'] have "m' = \<lparr>vertices = [Vector3d (1/4) 0 0],
      vertex_normals = [Vector3d 0 0 1, Vector3d 0 1 0],
      vertex_colors = [Vector3d 1 0 0, Vector3d 0 1 0],
      triangles = [(0, 0, 0)], triangle_normals = [Vector3d 0 0 1],
      adjacency_list = [{1}, {0}]\<rparr>"
    by simp
  with m' show ?thesis by simp
qed

lemma KDTreeFlann_of_data [simp]: "data (KDTreeFlann_of mesh) = vertices mesh"
  by (simp add: KDTreeFlann_of_def)

lemma valid_triangle_renumber:
  assumes "valid_triangle n t" and "\<forall>i<n. p2c ! i < k"
  shows "valid_triangle k (renumber p2c t)"
  using assms by (auto simp: valid_triangle_def renumber_def split: prod.splits)

text \<open>
  Claim C5.  For a mesh whose triangle ids are all vertex ids, \<open>merge_vertices_forward\<close>
  returns a mesh (no vector is touched outside its range): \<open>reduce\<close> has given every
  original id \<open>i\<close> a new id \<open>p2c ! i\<close> that is an index of the new vertex list, the parent
  of \<open>i\<close> is not above \<open>i\<close> (so its new id was assigned no later than it was read), and
  every rewritten triangle id is an index of the new vertex list.
\<close>

theorem merge_vertices_forward_triangles_valid:
  assumes "valid_mesh mesh"
  shows "\<exists>mesh' p2c.
      merge_vertices_forward rt (KDTreeFlann_of mesh) eps mesh = Inr mesh' \<and>
      reduce (vertices mesh) (replicate (length (vertices mesh)) 0) []
        (cp_vec (weld_forward rt (KDTreeFlann_of mesh) eps (vertices mesh)))
        (length (vertices mesh)) = Inr (p2c, vertices mesh') \<and>
      length p2c = length (vertices mesh) \<and>
      (\<forall>i<length (vertices mesh).
         cp_vec (weld_forward rt (KDTreeFlann_of mesh) eps (vertices mesh)) ! i \<le> i \<and>
         p2c ! i < length (vertices mesh')) \<and>
      triangles mesh' = map (renumber p2c) (triangles mesh) \<and>
      valid_mesh mesh'"
proof -
  let ?vs = "vertices mesh" and ?kd = "KDTreeFlann_of mesh"
  let ?n = "length ?vs"
  let ?cp = "cp_vec (weld_forward rt ?kd eps ?vs)"
  have d: "data ?kd = ?vs" by simp
  from merge_vertices_forward_result[OF d assms, of rt eps] obtain p2c nv where
    r: "reduce ?vs (replicate ?n 0) [] ?cp ?n = Inr (p2c, nv)"
       "merge_vertices_forward rt ?kd eps mesh
          = Inr (mesh\<lparr>triangles := map (renumber p2c) (triangles mesh), vertices := nv\<rparr>)"
       "length p2c = ?n"
    by blast
  let ?m' = "mesh\<lparr>triangles := map (renumber p2c) (triangles mesh), vertices := nv\<rparr>"
  have le: "\<forall>i<?n. ?cp ! i \<le> i" using weld_forward_parents(2)[OF d] by blast
  have lc: "length ?cp = ?n"
  proof (cases "?n = 0")
    case True
    then show ?thesis
      by (simp add: weld_forward_def weld_init_def wave_loop.simps[of rt "[]"] wave_def omp_for_def)
  next
    case False
    then have "0 < ?n" by simp
    from weld_forward_parents(4)[OF d this] show ?thesis .
  qed
  from reduce_result[OF lc refl _ le, of "replicate ?n 0"] r(1)
  have rng: "\<forall>i<?n. p2c ! i < length nv" by auto
  have "list_all (valid_triangle (length nv)) (map (renumber p2c) (triangles mesh))"
    using assms rng by (auto simp: valid_mesh_def list_all_iff intro: valid_triangle_renumber)
  then have "valid_mesh ?m'" by (simp add: valid_mesh_def)
  moreover have "reduce ?vs (replicate ?n 0) [] ?cp ?n = Inr (p2c, vertices ?m')"
    using r(1) by simp
  moreover have "\<forall>i<?n. ?cp ! i \<le> i \<and> p2c ! i < length (vertices ?m')"
    using le rng by simp
  moreover have "triangles ?m' = map (renumber p2c) (triangles mesh)" by simp
  ultimately show ?thesis using r(2,3) by blast
qed

text \<open>
  The three collinear points of the specification, welded with radius \<open>1\<close>: two new
  vertices, and the triangle \<open>(0, 1, 2)\<close> becomes \<open>(0, 0, 1)\<close>.
\<close>

theorem merge_vertices_forward_triangles_valid_witness:
  "merge_vertices_forward sequential
      (KDTreeFlann_of (TriangleMesh_of [Vector3d 0 0 0, Vector3d 1 0 0, Vector3d 2 0 0] [(0, 1, 2)]))
      1 (TriangleMesh_of [Vector3d 0 0 0, Vector3d 1 0 0, Vector3d 2 0 0] [(0, 1, 2)])
    = Inr (TriangleMesh_of [Vector3d (1/2) 0 0, Vector3d 2 0 0] [(0, 0, 1)]) \<and>
   valid_mesh (TriangleMesh_of [Vector3d (1/2) 0 0, Vector3d 2 0 0] [(0, 0, 1)])"
proof -
  let ?m = "TriangleMesh_of [Vector3d 0 0 0, Vector3d 1 0 0, Vector3d 2 0 0] [(0, 1, 2)]"
  let ?m' = "TriangleMesh_of [Vector3d (1/2) 0 0, Vector3d 2 0 0] [(0, 0, 1)]"
  have v: "valid_mesh ?m" by (simp add: valid_mesh_def valid_triangle_def TriangleMesh_of_def)
  have ev: "merge_vertices_forward sequential (KDTreeFlann_of ?m) 1 ?m = Inr ?m'"
    by code_simp
  from merge_vertices_forward_triangles_valid[OF v, of sequential 1] ev
  have "valid_mesh ?m'" by auto
  with ev show ?thesis by simp
qed

lemma dist2_zero: "dist2 p q \<le> 0 \<longleftrightarrow> p = q"
proof
  assume le: "dist2 p q \<le> 0"
  have a: "0 \<le> (vx p - vx q)\<^sup>2" and b: "0 \<le> (vy p - vy q)\<^sup>2" and c: "0 \<le> (vz p - vz q)\<^sup>2"
    by simp_all
  from le a b c have "(vx p - vx q)\<^sup>2 = 0" "(vy p - vy q)\<^sup>2 = 0" "(vz p - vz q)\<^sup>2 = 0"
    unfolding dist2_def by linarith+
  then show "p = q" by (simp add: Vector3d.expand)
next
  assume "p = q"
  then show "dist2 p q \<le> 0" by (simp add: dist2_def)
qed

lemma near_zero: "near 0 vs i j \<longleftrightarrow> vs ! i = vs ! j"
  by (simp add: near_def within_radius_code dist2_zero)

text \<open>
  Claim C6 fails as stated: the inclusion is closed, so two vertices at the same position
  are within \<open>0\<close> of each other and are welded.
\<close>

theorem weld_eps_zero_counterexample:
  "merge_vertices_forward sequential
      (KDTreeFlann_of (TriangleMesh_of [Vector3d 0 0 0, Vector3d 0 0 0] [(0, 1, 1)]))
      0 (TriangleMesh_of [Vector3d 0 0 0, Vector3d 0 0 0] [(0, 1, 1)])
    = Inr (TriangleMesh_of [Vector3d 0 0 0] [(0, 0, 0)]) \<and>
   length (vertices (TriangleMesh_of [Vector3d 0 0 0] [(0, 0, 0)]))
     \<noteq> length (vertices (TriangleMesh_of [Vector3d 0 0 0, Vector3d 0 0 0] [(0, 1, 1)])) \<and>
   triangles (TriangleMesh_of [Vector3d 0 0 0] [(0, 0, 0)])
     \<noteq> triangles (TriangleMesh_of [Vector3d 0 0 0, Vector3d 0 0 0] [(0, 1, 1)])"
  by code_simp

text \<open>
  Claim C6, amended.  For a valid mesh whose vertex positions are pairwise different,
  welding with \<open>eps = 0\<close> returns the mesh itself: the same vertices in the same order
  and the same triangles, under every schedule.
\<close>

theorem weld_eps_zero_distinct:
  assumes "valid_mesh mesh" and "distinct (vertices mesh)"
  shows "merge_vertices_forward rt (KDTreeFlann_of mesh) 0 mesh = Inr mesh"
proof (rule merge_vertices_forward_isolated[OF assms(1)])
  show "\<forall>i<length (vertices mesh). \<forall>j<length (vertices mesh).
          near 0 (vertices mesh) i j \<longrightarrow> i = j"
    using assms(2) by (simp add: near_zero nth_eq_iff_index_eq)
qed

theorem weld_eps_zero_distinct_witness:
  "merge_vertices_forward sequential
      (KDTreeFlann_of (TriangleMesh_of [Vector3d 0 0 0, Vector3d 1 0 0, Vector3d 0 1 0] [(0, 1, 2)]))
      0 (TriangleMesh_of [Vector3d 0 0 0, Vector3d 1 0 0, Vector3d 0 1 0] [(0, 1, 2)])
    = Inr (TriangleMesh_of [Vector3d 0 0 0, Vector3d 1 0 0, Vector3d 0 1 0] [(0, 1, 2)])"
proof -
  let ?m = "TriangleMesh_of [Vector3d 0 0 0, Vector3d 1 0 0, Vector3d 0 1 0] [(0, 1, 2)]"
  have v: "valid_mesh ?m" by (simp add: valid_mesh_def valid_triangle_def TriangleMesh_of_def)
  have dv: "distinct (vertices ?m)" by (simp add: TriangleMesh_of_def)
  from weld_eps_zero_distinct[OF v dv] show ?thesis .
qed

text \<open>
  Claim C7 fails as stated.  Vertex \<open>1\<close> claims the vertices \<open>2\<close> and \<open>3\<close> at radius \<open>5\<close>;
  at radius \<open>6\<close> vertex \<open>0\<close> claims vertex \<open>1\<close>, and the vertices \<open>2\<close> and \<open>3\<close>, out of
  range of \<open>0\<close> and of each other, stay on their own: two new vertices at radius \<open>5\<close>,
  three at radius \<open>6\<close>.
\<close>

theorem new_vertex_count_monotone_counterexample:
  "(5::real) < 6 \<and>
   merge_vertices_forward sequential
      (KDTreeFlann_of (TriangleMesh_of
         [Vector3d 0 0 6, Vector3d 0 0 0, Vector3d 5 0 0, Vector3d (- 5) 0 0] [(0, 1, 2)]))
      5 (TriangleMesh_of
         [Vector3d 0 0 6, Vector3d 0 0 0, Vector3d 5 0 0, Vector3d (- 5) 0 0] [(0, 1, 2)])
    = Inr (TriangleMesh_of [Vector3d 0 0 6, Vector3d 0 0 0] [(0, 1, 1)]) \<and>
   merge_vertices_forward sequential
      (KDTreeFlann_of (TriangleMesh_of
         [Vector3d 0 0 6, Vector3d 0 0 0, Vector3d 5 0 0, Vector3d (- 5) 0 0] [(0, 1, 2)]))
      6 (TriangleMesh_of
         [Vector3d 0 0 6, Vector3d 0 0 0, Vector3d 5 0 0, Vector3d (- 5) 0 0] [(0, 1, 2)])
    = Inr (TriangleMesh_of [Vector3d 0 0 3, Vector3d 5 0 0, Vector3d (- 5) 0 0] [(0, 0, 1)]) \<and>
   length (vertices (TriangleMesh_of [Vector3d 0 0 6, Vector3d 0 0 0] [(0, 1, 1)]))
     < length (vertices (TriangleMesh_of [Vector3d 0 0 3, Vector3d 5 0 0, Vector3d (- 5) 0 0]
          [(0, 0, 1)]))"
  by code_simp

text \<open>
  Claim C7, amended.  The new vertex count never exceeds the original one, and it is the
  original one at a threshold \<open>eps1\<close> that puts no two different vertices in range of each
  other; so the count at such an \<open>eps1\<close> is at least the count at any other threshold
  \<open>eps2\<close>.  Between two thresholds that both weld, the count is not monotone.
\<close>

theorem new_vertex_count_bounded:
  assumes "valid_mesh mesh"
    and "\<forall>i<length (vertices mesh). \<forall>j<length (vertices mesh).
           near eps1 (vertices mesh) i j \<longrightarrow> i = j"
  shows "\<exists>m1 m2.
      merge_vertices_forward rt (KDTreeFlann_of mesh) eps1 mesh = Inr m1 \<and>
      merge_vertices_forward rt (KDTreeFlann_of mesh) eps2 mesh = Inr m2 \<and>
      length (vertices m1) = length (vertices mesh) \<and>
      length (vertices m2) \<le> length (vertices m1)"
proof -
  let ?vs = "vertices mesh" and ?kd = "KDTreeFlann_of mesh"
  let ?n = "length ?vs"
  let ?cp = "cp_vec (weld_forward rt ?kd eps2 ?vs)"
  have d: "data ?kd = ?vs" by simp
  have m1: "merge_vertices_forward rt ?kd eps1 mesh = Inr mesh"
    by (rule merge_vertices_forward_isolated[OF assms])
  from merge_vertices_forward_result[OF d assms(1), of rt eps2] obtain p2c nv where
    r: "reduce ?vs (replicate ?n 0) [] ?cp ?n = Inr (p2c, nv)"
       "merge_vertices_forward rt ?kd eps2 mesh
          = Inr (mesh\<lparr>triangles := map (renumber p2c) (triangles mesh), vertices := nv\<rparr>)"
    by blast
  have le: "\<forall>i<?n. ?cp ! i \<le> i" using weld_forward_parents(2)[OF d] by blast
  have lc: "length ?cp = ?n"
  proof (cases "?n = 0")
    case True
    then show ?thesis
      by (simp add: weld_forward_def weld_init_def wave_loop.simps[of rt "[]"] wave_def omp_for_def)
  next
    case False
    then have "0 < ?n" by simp
    from weld_forward_parents(4)[OF d this] show ?thesis .
  qed
  from reduce_result[OF lc refl _ le, of "replicate ?n 0"] r(1)
  have "length nv = card (centroids ?cp ?n)" by auto
  then have "length nv \<le> ?n" using card_centroids_le[of ?cp ?n] by simp
  with m1 r(2) show ?thesis by simp
qed

theorem new_vertex_count_bounded_witness:
  "merge_vertices_forward sequential
      (KDTreeFlann_of (TriangleMesh_of
         [Vector3d 0 0 6, Vector3d 0 0 0, Vector3d 5 0 0, Vector3d (- 5) 0 0] [(0, 1, 2)]))
      1 (TriangleMesh_of
         [Vector3d 0 0 6, Vector3d 0 0 0, Vector3d 5 0 0, Vector3d (- 5) 0 0] [(0, 1, 2)])
    = Inr (TriangleMesh_of
         [Vector3d 0 0 6, Vector3d 0 0 0, Vector3d 5 0 0, Vector3d (- 5) 0 0] [(0, 1, 2)]) \<and>
   merge_vertices_forward sequential
      (KDTreeFlann_of (TriangleMesh_of
         [Vector3d 0 0 6, Vector3d 0 0 0, Vector3d 5 0 0, Vector3d (- 5) 0 0] [(0, 1, 2)]))
      6 (TriangleMesh_of
         [Vector3d 0 0 6, Vector3d 0 0 0, Vector3d 5 0 0, Vector3d (- 5) 0 0] [(0, 1, 2)])
    = Inr (TriangleMesh_of [Vector3d 0 0 3, Vector3d 5 0 0, Vector3d (- 5) 0 0] [(0, 0, 1)]) \<and>
   length (vertices (TriangleMesh_of [Vector3d 0 0 3, Vector3d 5 0 0, Vector3d (- 5) 0 0]
        [(0, 0, 1)]))
     \<le> length (vertices (TriangleMesh_of
         [Vector3d 0 0 6, Vector3d 0 0 0, Vector3d 5 0 0, Vector3d (- 5) 0 0] [(0, 1, 2)]))"
proof -
  let ?m = "TriangleMesh_of
         [Vector3d 0 0 6, Vector3d 0 0 0, Vector3d 5 0 0, Vector3d (- 5) 0 0] [(0, 1, 2)]"
  let ?m2 = "TriangleMesh_of [Vector3d 0 0 3, Vector3d 5 0 0, Vector3d (- 5) 0 0] [(0, 0, 1)]"
  have v: "valid_mesh ?m" by (simp add: valid_mesh_def valid_triangle_def TriangleMesh_of_def)
  have iso: "\<forall>i<length (vertices ?m). \<forall>j<length (vertices ?m).
      near 1 (vertices ?m) i j \<longrightarrow> i = j"
    by (simp add: TriangleMesh_of_def near_def within_radius_code dist2_def
        less_Suc_eq numeral_eq_Suc all_conj_distrib)
  have ev: "merge_vertices_forward sequential (KDTreeFlann_of ?m) 6 ?m = Inr ?m2"
    by code_simp
  from new_vertex_count_bounded[OF v iso, of sequential 6] obtain m1 m2 where
    r: "merge_vertices_forward sequential (KDTreeFlann_of ?m) 1 ?m = Inr m1"
       "merge_vertices_forward sequential (KDTreeFlann_of ?m) 6 ?m = Inr m2"
       "length (vertices m1) = length (vertices ?m)"
       "length (vertices m2) \<le> length (vertices m1)"
    by blast
  from r(2) ev have "m2 = ?m2" by simp
  moreover have "merge_vertices_forward sequential (KDTreeFlann_of ?m) 1 ?m = Inr ?m"
    by code_simp
  ultimately show ?thesis using r ev by simp
qed

text \<open>
  The states at the tests of \<^verbatim>\<open>while (should_continue)\<close> in the run that starts in
  \<open>st0\<close>.
\<close>

inductive wave_start :: "omp_runtime \<Rightarrow> nat list list \<Rightarrow> weld_state \<Rightarrow> weld_state \<Rightarrow> bool"
  for rt nn st0 where
  first: "wave_start rt nn st0 st0"
| later: "wave_start rt nn st0 st \<Longrightarrow> should_continue st \<Longrightarrow> wave_start rt nn st0 (wave rt nn st)"

lemma wave_start_inv:
  assumes "wave_start rt nn st0 st" and "wf_neighbours nn n" and "weld_inv nn st0"
  shows "weld_inv nn st"
  using assms by (induction rule: wave_start.induct) (auto intro: wave_inv(1))

lemma wave_body_rem_le:
  assumes "i < length (remainingSmallerFinalsVec st)"
  shows "remainingSmallerFinalsVec (wave_body nn k st) ! i \<le> remainingSmallerFinalsVec st ! i"
proof (cases "remainingSmallerFinalsVec st ! k = 0")
  case True
  let ?r = "remainingSmallerFinalsVec st"
  let ?st1 = "st\<lparr>remainingSmallerFinalsVec := ?r[k := ?r ! k - 1]\<rparr>"
  have eq: "wave_body nn k st = fold (neighbor_update k (cp_vec ?st1 ! k = k)) (nn ! k) ?st1"
    using True by (simp add: wave_body_def Let_def)
  have "i < length (remainingSmallerFinalsVec ?st1)" using assms by simp
  then have "remainingSmallerFinalsVec (wave_body nn k st) ! i \<le> remainingSmallerFinalsVec ?st1 ! i"
    unfolding eq by (rule fold_neighbor_update_rem_le)
  also have "\<dots> \<le> ?r ! i" using assms by (cases "k = i") simp_all
  finally show ?thesis .
next
  case False
  then show ?thesis by (simp add: wave_body_idle)
qed

text \<open>
  Claim C4.  The wave loop ends, after at most one wave more than there are vertices;
  no iteration body ever raises a counter, so a vertex that has gone from \<open>0\<close> to \<open>-1\<close>
  stays negative and never emits again; and at every test of the loop condition at which
  some vertex has not emitted, the least such vertex has counter \<open>0\<close> (all its smaller
  neighbours have emitted) and the next wave emits it, under every schedule.
\<close>

theorem wave_loop_terminates:
  "weld_forward rt (KDTreeFlann_of mesh) eps (vertices mesh)
     = wave_loop rt (fst (weld_init (KDTreeFlann_of mesh) eps (vertices mesh)))
         (snd (weld_init (KDTreeFlann_of mesh) eps (vertices mesh))) \<and>
   \<not> should_continue (weld_forward rt (KDTreeFlann_of mesh) eps (vertices mesh)) \<and>
   numIterations (weld_forward rt (KDTreeFlann_of mesh) eps (vertices mesh))
     \<le> length (vertices mesh) + 1 \<and>
   (\<forall>st k i. i < length (remainingSmallerFinalsVec st) \<longrightarrow>
      remainingSmallerFinalsVec
        (wave_body (fst (weld_init (KDTreeFlann_of mesh) eps (vertices mesh))) k st) ! i
        \<le> remainingSmallerFinalsVec st ! i) \<and>
   (\<forall>st m. wave_start rt (fst (weld_init (KDTreeFlann_of mesh) eps (vertices mesh)))
              (snd (weld_init (KDTreeFlann_of mesh) eps (vertices mesh))) st \<longrightarrow>
      m < length (vertices mesh) \<longrightarrow> m \<notin> emitted st \<longrightarrow> (\<forall>k<m. k \<in> emitted st) \<longrightarrow>
      remainingSmallerFinalsVec st ! m = 0 \<and>
      smaller (fst (weld_init (KDTreeFlann_of mesh) eps (vertices mesh))) m \<subseteq> emitted st \<and>
      m \<in> emitted (wave rt (fst (weld_init (KDTreeFlann_of mesh) eps (vertices mesh))) st))"
proof -
  let ?vs = "vertices mesh" and ?kd = "KDTreeFlann_of mesh"
  let ?nn = "fst (weld_init ?kd eps ?vs)" and ?st0 = "snd (weld_init ?kd eps ?vs)"
  have d: "data ?kd = ?vs" by (simp add: KDTreeFlann_of_def)
  note wf = weld_init_wf[OF d, where eps=eps] and inv0 = weld_init_inv[OF d, where eps=eps]
  note F = weld_forward_final[OF d, where eps=eps and rt=rt]
  have "weld_forward rt ?kd eps ?vs = wave_loop rt ?nn ?st0"
    by (simp add: weld_forward_def split_beta)
  moreover have "\<forall>st k i. i < length (remainingSmallerFinalsVec st) \<longrightarrow>
      remainingSmallerFinalsVec (wave_body ?nn k st) ! i \<le> remainingSmallerFinalsVec st ! i"
    using wave_body_rem_le by blast
  moreover have "remainingSmallerFinalsVec st ! m = 0 \<and> smaller ?nn m \<subseteq> emitted st \<and>
      m \<in> emitted (wave rt ?nn st)"
    if ws: "wave_start rt ?nn ?st0 st" and m: "m < length ?vs" and un: "m \<notin> emitted st"
      and least: "\<forall>k<m. k \<in> emitted st" for st m
  proof -
    have inv: "weld_inv ?nn st" by (rule wave_start_inv[OF ws wf inv0])
    have "smaller ?nn m \<subseteq> emitted st" using least smaller_less by blast
    with wave_progress(1)[OF wf inv m un least] wave_progress(2)[OF wf inv m un least, of rt]
    show ?thesis by simp
  qed
  ultimately show ?thesis using F(3,4) by blast
qed

text \<open>A schedule that runs every work-shared loop of \<open>n\<close> iterations in descending order.\<close>

definition descending :: "nat \<Rightarrow> omp_runtime" where
  "descending n = \<lparr>omp_when = (\<lambda>k i. n - i), omp_thread_of = (\<lambda>i. 0), omp_threads = 0\<rparr>"

text \<open>
  The three collinear points under the descending schedule: the first wave emits vertex
  \<open>0\<close> only, after it vertex \<open>1\<close> is the least vertex that has not emitted, its counter is
  \<open>0\<close>, and the second wave emits it; the loop ends after three waves.
\<close>

theorem wave_loop_terminates_witness:
  "\<not> should_continue (weld_forward (descending 3)
       (KDTreeFlann_of (TriangleMesh_of [Vector3d 0 0 0, Vector3d 1 0 0, Vector3d 2 0 0] [(0, 1, 2)]))
       1 [Vector3d 0 0 0, Vector3d 1 0 0, Vector3d 2 0 0]) \<and>
   numIterations (weld_forward (descending 3)
       (KDTreeFlann_of (TriangleMesh_of [Vector3d 0 0 0, Vector3d 1 0 0, Vector3d 2 0 0] [(0, 1, 2)]))
       1 [Vector3d 0 0 0, Vector3d 1 0 0, Vector3d 2 0 0]) = 3 \<and>
   remainingSmallerFinalsVec
     \<lparr>cp_vec = [0, 0, 2], remainingSmallerFinalsVec = [- 1, 0, 1],
      should_continue = True, numIterations = 1, fault = False\<rparr> ! 1 = 0 \<and>
   1 \<in> emitted (wave (descending 3) [[1], [2], []]
     \<lparr>cp_vec = [0, 0, 2], remainingSmallerFinalsVec = [- 1, 0, 1],
      should_continue = True, numIterations = 1, fault = False\<rparr>)"
proof -
  let ?vs = "[Vector3d 0 0 0, Vector3d 1 0 0, Vector3d 2 0 0]"
  let ?m = "TriangleMesh_of ?vs [(0, 1, 2)]"
  let ?rt = "descending 3"
  let ?st0 = "\<lparr>cp_vec = [0, 1, 2], remainingSmallerFinalsVec = [0, 1, 1],
      should_continue = True, numIterations = 0, fault = False\<rparr>"
  let ?st1 = "\<lparr>cp_vec = [0, 0, 2], remainingSmallerFinalsVec = [- 1, 0, 1],
      should_continue = True, numIterations = 1, fault = False\<rparr>"
  have vs: "vertices ?m = ?vs" by (simp add: TriangleMesh_of_def)
  have init: "weld_init (KDTreeFlann_of ?m) 1 ?vs = ([[1], [2], []], ?st0)"
    by code_simp
  have w1: "wave ?rt [[1], [2], []] ?st0 = ?st1"
    by code_simp
  have n3: "numIterations (weld_forward ?rt (KDTreeFlann_of ?m) 1 ?vs) = 3"
    by code_simp
  have ws: "wave_start ?rt [[1], [2], []] ?st0 ?st1"
    using wave_start.later[OF wave_start.first, of ?st0 ?rt "[[1], [2], []]"] w1 by simp
  have un: "1 \<notin> emitted ?st1" by (simp add: emitted_def)
  have least: "\<forall>k<1. k \<in> emitted ?st1" by (simp add: emitted_def)
  from wave_loop_terminates[of ?rt ?m 1, unfolded vs init fst_conv snd_conv]
  have T: "\<not> should_continue (weld_forward ?rt (KDTreeFlann_of ?m) 1 ?vs)"
    and P: "\<forall>st m. wave_start ?rt [[1], [2], []] ?st0 st \<longrightarrow>
      m < length ?vs \<longrightarrow> m \<notin> emitted st \<longrightarrow> (\<forall>k<m. k \<in> emitted st) \<longrightarrow>
      remainingSmallerFinalsVec st ! m = 0 \<and>
      smaller [[1], [2], []] m \<subseteq> emitted st \<and>
      m \<in> emitted (wave ?rt [[1], [2], []] st)"
    by blast+
  from P ws un least have "remainingSmallerFinalsVec ?st1 ! 1 = 0"
    "1 \<in> emitted (wave ?rt [[1], [2], []] ?st1)"
    by (metis One_nat_def length_Cons lessI list.size(3) numeral_3_eq_3 Suc_lessD)+
  with T n3 show ?thesis by blast
qed

lemma wave_loop_numIterations_mono:
  "numIterations st \<le> numIterations (wave_loop rt nn st)"
proof (induction rt nn st rule: wave_loop.induct)
  case (1 rt nn st)
  show ?case
  proof (cases "should_continue st")
    case True
    with 1 have "numIterations (wave rt nn st) \<le> numIterations (wave_loop rt nn (wave rt nn st))"
      by simp
    then show ?thesis using True by (subst wave_loop.simps) simp
  next
    case False
    then show ?thesis by (subst wave_loop.simps) simp
  qed
qed

text \<open>
  Claim C9.  A vertex \<open>i\<close> whose only neighbour within \<open>eps\<close> is itself starts with
  counter \<open>0\<close>.  The wave loop is entered, so the run of the welder is the loop continued
  after a first wave, and this first wave emits \<open>i\<close> (its counter is \<open>-1\<close> after it) as
  its own parent.  When the loop has ended, \<open>i\<close> has emitted, its counter is still \<open>-1\<close>,
  it is its own parent, no other vertex has it as parent, and in the welded mesh it is
  the only original vertex mapped to its new id, whose position is the position of \<open>i\<close>.
\<close>

theorem isolated_vertex_singleton:
  assumes "valid_mesh mesh" and "i < length (vertices mesh)"
    and "\<forall>j<length (vertices mesh). near eps (vertices mesh) i j \<longleftrightarrow> j = i"
  shows "remainingSmallerFinalsVec (snd (weld_init (KDTreeFlann_of mesh) eps (vertices mesh))) ! i = 0 \<and>
    weld_forward rt (KDTreeFlann_of mesh) eps (vertices mesh)
      = wave_loop rt (fst (weld_init (KDTreeFlann_of mesh) eps (vertices mesh)))
          (wave rt (fst (weld_init (KDTreeFlann_of mesh) eps (vertices mesh)))
                   (snd (weld_init (KDTreeFlann_of mesh) eps (vertices mesh)))) \<and>
    numIterations (wave rt (fst (weld_init (KDTreeFlann_of mesh) eps (vertices mesh)))
                   (snd (weld_init (KDTreeFlann_of mesh) eps (vertices mesh)))) = 1 \<and>
    i \<in> emitted (wave rt (fst (weld_init (KDTreeFlann_of mesh) eps (vertices mesh)))
                   (snd (weld_init (KDTreeFlann_of mesh) eps (vertices mesh)))) \<and>
    remainingSmallerFinalsVec
        (wave rt (fst (weld_init (KDTreeFlann_of mesh) eps (vertices mesh)))
                 (snd (weld_init (KDTreeFlann_of mesh) eps (vertices mesh)))) ! i = - 1 \<and>
    cp_vec (wave rt (fst (weld_init (KDTreeFlann_of mesh) eps (vertices mesh)))
                   (snd (weld_init (KDTreeFlann_of mesh) eps (vertices mesh)))) ! i = i \<and>
    1 \<le> numIterations (weld_forward rt (KDTreeFlann_of mesh) eps (vertices mesh)) \<and>
    i \<in> emitted (weld_forward rt (KDTreeFlann_of mesh) eps (vertices mesh)) \<and>
    remainingSmallerFinalsVec (weld_forward rt (KDTreeFlann_of mesh) eps (vertices mesh)) ! i = - 1 \<and>
    cp_vec (weld_forward rt (KDTreeFlann_of mesh) eps (vertices mesh)) ! i = i \<and>
    (\<forall>j<length (vertices mesh).
        cp_vec (weld_forward rt (KDTreeFlann_of mesh) eps (vertices mesh)) ! j = i \<longrightarrow> j = i) \<and>
    (\<exists>mesh' p2c.
        merge_vertices_forward rt (KDTreeFlann_of mesh) eps mesh = Inr mesh' \<and>
        reduce (vertices mesh) (replicate (length (vertices mesh)) 0) []
          (cp_vec (weld_forward rt (KDTreeFlann_of mesh) eps (vertices mesh)))
          (length (vertices mesh)) = Inr (p2c, vertices mesh') \<and>
        (\<forall>j<length (vertices mesh). p2c ! j = p2c ! i \<longrightarrow> j = i) \<and>
        p2c ! i < length (vertices mesh') \<and>
        vertices mesh' ! (p2c ! i) = vertices mesh ! i)"
proof -
  let ?vs = "vertices mesh" and ?kd = "KDTreeFlann_of mesh"
  let ?n = "length ?vs"
  let ?nn = "fst (weld_init ?kd eps ?vs)" and ?ini = "snd (weld_init ?kd eps ?vs)"
  let ?st = "weld_forward rt ?kd eps ?vs"
  let ?cp = "cp_vec ?st"
  note v = assms(1) and i = assms(2) and iso = assms(3)
  have d: "data ?kd = ?vs" by (simp add: KDTreeFlann_of_def)
  note wf = weld_init_wf[OF d, where eps=eps] and inv0 = weld_init_inv[OF d, where eps=eps]
  note S = weld_init_st[OF d, where eps=eps]
  have n: "length ?nn = ?n" by (rule weld_init_nn(1)[OF d])
  \<comment> \<open>the counter starts at zero\<close>
  have "{k. k < ?n \<and> k \<le> i \<and> near eps ?vs i k} = {i}" using iso i by auto
  then have r0: "remainingSmallerFinalsVec ?ini ! i = 0" using S(3)[OF i] by simp
  \<comment> \<open>no smaller neighbours\<close>
  have sm: "smaller ?nn i = {}" using iso i by (auto simp: weld_init_smaller[OF d i])
  \<comment> \<open>the loop is entered: the run is the loop after a first wave\<close>
  have "?st = wave_loop rt ?nn ?ini" by (simp add: weld_forward_def split_beta)
  also have "\<dots> = wave_loop rt ?nn (wave rt ?nn ?ini)"
    using S(4) by (subst wave_loop.simps) simp
  finally have run: "?st = wave_loop rt ?nn (wave rt ?nn ?ini)" .
  have it1: "numIterations (wave rt ?nn ?ini) = 1" using S(5) by simp
  have "numIterations (wave rt ?nn ?ini) \<le> numIterations (wave_loop rt ?nn (wave rt ?nn ?ini))"
    by (rule wave_loop_numIterations_mono)
  then have itf: "1 \<le> numIterations ?st" unfolding run[symmetric] it1 .
  \<comment> \<open>the first wave emits it\<close>
  let ?ini1 = "?ini\<lparr>numIterations := numIterations ?ini + 1, should_continue := False\<rparr>"
  let ?xs = "omp_for rt (numIterations ?ini) (length (remainingSmallerFinalsVec ?ini))"
  have xs: "\<forall>k\<in>set ?xs. k < ?n" using S(2) by simp
  have "i \<in> set ?xs" using i S(2) by simp
  with fold_wave_body_progress[OF wf _ xs, of ?ini1 i] inv0 sm
  have e1: "i \<in> emitted (wave rt ?nn ?ini)" by (simp add: wave_def)
  have inv1: "weld_inv ?nn (wave rt ?nn ?ini)" by (rule wave_inv(1)[OF wf inv0])
  have "remainingSmallerFinalsVec (wave rt ?nn ?ini) ! i < 0" using e1 by (simp add: emitted_def)
  with weld_invD(4)[OF inv1, of i] i n
  have m1: "remainingSmallerFinalsVec (wave rt ?nn ?ini) ! i = - 1" by simp
  have c1: "cp_vec (wave rt ?nn ?ini) ! i = i"
    using weld_invD(6)[OF inv1, of i] i n sm by simp
  \<comment> \<open>emitted when the loop has ended\<close>
  note F = weld_forward_final[OF d, where eps=eps and rt=rt]
  have ef: "i \<in> emitted ?st" using F(2) i by simp
  then have "remainingSmallerFinalsVec ?st ! i < 0" by (simp add: emitted_def)
  with weld_invD(4)[OF F(1), of i] i n
  have mf: "remainingSmallerFinalsVec ?st ! i = - 1" by simp
  \<comment> \<open>its own parent at the end, and nobody's parent but its own\<close>
  have cf: "?cp ! i = i" using iso i by (intro isolated_parent[OF d i]) auto
  have nobody: "j = i" if j: "j < ?n" and pj: "?cp ! j = i" for j
  proof (rule ccontr)
    assume ne: "j \<noteq> i"
    let ?A = "{k. k < j \<and> near eps ?vs j k \<and> ?cp ! k = k}"
    have "?cp ! j = Min (insert j ?A)" by (rule weld_forward_parents(1)[OF d j])
    moreover have "Min (insert j ?A) \<in> insert j ?A" by (intro Min_in) simp_all
    ultimately have "i \<in> ?A" using pj ne by auto
    then have "near eps ?vs i j" by (simp add: near_sym[of eps ?vs i j])
    with iso j ne show False by blast
  qed
  \<comment> \<open>the welded mesh\<close>
  from merge_vertices_forward_result[OF d v, of rt eps] obtain p2c nv where
    r: "reduce ?vs (replicate ?n 0) [] ?cp ?n = Inr (p2c, nv)"
       "merge_vertices_forward rt ?kd eps mesh
          = Inr (mesh\<lparr>triangles := map (renumber p2c) (triangles mesh), vertices := nv\<rparr>)"
    by blast
  let ?m' = "mesh\<lparr>triangles := map (renumber p2c) (triangles mesh), vertices := nv\<rparr>"
  have le: "\<forall>k<?n. ?cp ! k \<le> k" using weld_forward_parents(2)[OF d] by blast
  have idem: "\<forall>k<?n. ?cp ! (?cp ! k) = ?cp ! k" using weld_forward_parents(3)[OF d] by blast
  have lc: "length ?cp = ?n" using weld_forward_parents(4)[OF d i] .
  from reduce_result[OF lc refl _ le, of "replicate ?n 0"] r(1)
  have rr: "\<forall>k<?n. p2c ! k < length nv" "\<forall>k<?n. p2c ! (?cp ! k) = p2c ! k"
    "\<forall>k<?n. ?cp ! k = k \<longrightarrow> p2c ! k = card (centroids ?cp k)"
    "\<forall>c<length nv. members p2c ?n c \<noteq> {} \<and>
         nv ! c = (\<Sum>k\<in>members p2c ?n c. ?vs ! k) /\<^sub>R real (card (members p2c ?n c))"
    by auto
  have single: "j = i" if j: "j < ?n" and pj: "p2c ! j = p2c ! i" for j
  proof -
    from same_cluster_iff[OF le idem rr(2,3) j i] pj have "?cp ! j = ?cp ! i" by simp
    with cf nobody[OF j] show ?thesis by simp
  qed
  have pi: "p2c ! i < length nv" using rr(1) i by blast
  have "members p2c ?n (p2c ! i) = {i}" using single i by (auto simp: members_def)
  with rr(4) pi have pos: "nv ! (p2c ! i) = ?vs ! i" by simp
  have "\<exists>mesh' p2c.
        merge_vertices_forward rt ?kd eps mesh = Inr mesh' \<and>
        reduce ?vs (replicate ?n 0) [] ?cp ?n = Inr (p2c, vertices mesh') \<and>
        (\<forall>j<?n. p2c ! j = p2c ! i \<longrightarrow> j = i) \<and>
        p2c ! i < length (vertices mesh') \<and>
        vertices mesh' ! (p2c ! i) = ?vs ! i"
    using r single pi pos by (intro exI[of _ ?m'] exI[of _ p2c]) simp
  with r0 run it1 e1 m1 c1 itf ef mf cf nobody show ?thesis by blast
qed

text \<open>
  Three points on a line, the first two within radius \<open>1\<close> of each other and the third
  far away, under the descending schedule: vertex \<open>2\<close> has no neighbour but itself, is
  emitted by the first of the two waves as its own parent, and becomes the new vertex \<open>1\<close>
  at its own position, while vertices \<open>0\<close> and \<open>1\<close> are welded into the new vertex \<open>0\<close>.
\<close>

theorem isolated_vertex_singleton_witness:
  "remainingSmallerFinalsVec (snd (weld_init
       (KDTreeFlann_of (TriangleMesh_of [Vector3d 0 0 0, Vector3d 1 0 0, Vector3d 5 0 0] [(0, 1, 2)]))
       1 [Vector3d 0 0 0, Vector3d 1 0 0, Vector3d 5 0 0])) ! 2 = 0 \<and>
   wave (descending 3) [[1], [], []]
       \<lparr>cp_vec = [0, 1, 2], remainingSmallerFinalsVec = [0, 1, 0],
        should_continue = True, numIterations = 0, fault = False\<rparr>
     = \<lparr>cp_vec = [0, 0, 2], remainingSmallerFinalsVec = [- 1, 0, - 1],
        should_continue = True, numIterations = 1, fault = False\<rparr> \<and>
   weld_forward (descending 3)
       (KDTreeFlann_of (TriangleMesh_of [Vector3d 0 0 0, Vector3d 1 0 0, Vector3d 5 0 0] [(0, 1, 2)]))
       1 [Vector3d 0 0 0, Vector3d 1 0 0, Vector3d 5 0 0]
     = \<lparr>cp_vec = [0, 0, 2], remainingSmallerFinalsVec = [- 1, - 1, - 1],
        should_continue = False, numIterations = 2, fault = False\<rparr> \<and>
   2 \<in> emitted (weld_forward (descending 3)
       (KDTreeFlann_of (TriangleMesh_of [Vector3d 0 0 0, Vector3d 1 0 0, Vector3d 5 0 0] [(0, 1, 2)]))
       1 [Vector3d 0 0 0, Vector3d 1 0 0, Vector3d 5 0 0]) \<and>
   merge_vertices_forward (descending 3)
       (KDTreeFlann_of (TriangleMesh_of [Vector3d 0 0 0, Vector3d 1 0 0, Vector3d 5 0 0] [(0, 1, 2)]))
       1 (TriangleMesh_of [Vector3d 0 0 0, Vector3d 1 0 0, Vector3d 5 0 0] [(0, 1, 2)])
     = Inr (TriangleMesh_of [Vector3d (1/2) 0 0, Vector3d 5 0 0] [(0, 0, 1)])"
proof -
  let ?vs = "[Vector3d 0 0 0, Vector3d 1 0 0, Vector3d 5 0 0]"
  let ?m = "TriangleMesh_of ?vs [(0, 1, 2)]"
  let ?st0 = "\<lparr>cp_vec = [0, 1, 2], remainingSmallerFinalsVec = [0, 1, 0],
        should_continue = True, numIterations = 0, fault = False\<rparr>"
  have vs: "vertices ?m = ?vs" by (simp add: TriangleMesh_of_def)
  have v: "valid_mesh ?m" by (simp add: valid_mesh_def valid_triangle_def TriangleMesh_of_def)
  have i: "2 < length (vertices ?m)" unfolding vs by simp
  have iso: "\<forall>j<length (vertices ?m). near 1 (vertices ?m) 2 j \<longleftrightarrow> j = 2"
    unfolding vs
    by (simp add: near_def within_radius_code dist2_def less_Suc_eq numeral_eq_Suc
        all_conj_distrib)
  have init: "weld_init (KDTreeFlann_of ?m) 1 ?vs = ([[1], [], []], ?st0)"
    by code_simp
  have w1: "wave (descending 3) [[1], [], []] ?st0
     = \<lparr>cp_vec = [0, 0, 2], remainingSmallerFinalsVec = [- 1, 0, - 1],
        should_continue = True, numIterations = 1, fault = False\<rparr>"
    by code_simp
  have fin: "weld_forward (descending 3) (KDTreeFlann_of ?m) 1 ?vs
     = \<lparr>cp_vec = [0, 0, 2], remainingSmallerFinalsVec = [- 1, - 1, - 1],
        should_continue = False, numIterations = 2, fault = False\<rparr>"
    by code_simp
  have ev: "merge_vertices_forward (descending 3) (KDTreeFlann_of ?m) 1 ?m
      = Inr (TriangleMesh_of [Vector3d (1/2) 0 0, Vector3d 5 0 0] [(0, 0, 1)])"
    by code_simp
  from isolated_vertex_singleton[OF v i iso, of "descending 3", unfolded vs init fst_conv snd_conv]
  have "remainingSmallerFinalsVec ?st0 ! 2 = 0"
    and "2 \<in> emitted (weld_forward (descending 3) (KDTreeFlann_of ?m) 1 ?vs)"
    by blast+
  with init w1 fin ev show ?thesis by simp
qed

section \<open>Welder: \<^verbatim>\<open>merge_vertices_forward_async\<close>\<close>

text \<open>
  The wave loop of the asynchronous variant shares the vectors of the synchronous one
  and adds the padded per-thread counters \<open>num_discovered_centroids\<close>.
\<close>

record async_state = weld_state +
  num_discovered_centroids :: "nat list"

definition ints_per_cache_line :: nat where
  "ints_per_cache_line = 16"

text \<open>The body of the work-shared loop over the vertices, for vertex \<open>i\<close>.\<close>

definition wave_body_async ::
  "omp_runtime \<Rightarrow> nat list list \<Rightarrow> nat \<Rightarrow> async_state \<Rightarrow> async_state" where
  "wave_body_async rt pid2nnBigger i st =
    (if remainingSmallerFinalsVec st ! i < 0 then st
     else if remainingSmallerFinalsVec st ! i = 0 then
       let st1 = st\<lparr>remainingSmallerFinalsVec :=
                      (remainingSmallerFinalsVec st)[i := remainingSmallerFinalsVec st ! i - 1]\<rparr>;
           isCentroid = (cp_vec st1 ! i = i);
           slot = omp_get_thread_num rt i * ints_per_cache_line;
           st2 = st1\<lparr>num_discovered_centroids := (num_discovered_centroids st1)
                   [slot := num_discovered_centroids st1 ! slot + (if isCentroid then 1 else 0)]\<rparr>
       in fold (neighbor_update i isCentroid) (pid2nnBigger ! i) st2
     else st)"

definition wave_async :: "omp_runtime \<Rightarrow> nat list list \<Rightarrow> async_state \<Rightarrow> async_state" where
  "wave_async rt pid2nnBigger st =
    fold (wave_body_async rt pid2nnBigger)
      (omp_for rt (numIterations st) (length (remainingSmallerFinalsVec st)))
      (st\<lparr>numIterations := numIterations st + 1, should_continue := False\<rparr>)"

text \<open>The shared vectors of an asynchronous state.\<close>

definition shared :: "async_state \<Rightarrow> weld_state" where
  "shared st = weld_state.truncate st"

lemma shared_simps [simp]:
  "cp_vec (shared st) = cp_vec st"
  "remainingSmallerFinalsVec (shared st) = remainingSmallerFinalsVec st"
  "should_continue (shared st) = should_continue st"
  "numIterations (shared st) = numIterations st"
  "fault (shared st) = fault st"
  by (simp_all add: shared_def weld_state.truncate_def)

lemma shared_update [simp]:
  "shared (st\<lparr>cp_vec := a\<rparr>) = (shared st)\<lparr>cp_vec := a\<rparr>"
  "shared (st\<lparr>remainingSmallerFinalsVec := b\<rparr>) = (shared st)\<lparr>remainingSmallerFinalsVec := b\<rparr>"
  "shared (st\<lparr>should_continue := c\<rparr>) = (shared st)\<lparr>should_continue := c\<rparr>"
  "shared (st\<lparr>numIterations := d\<rparr>) = (shared st)\<lparr>numIterations := d\<rparr>"
  "shared (st\<lparr>fault := e\<rparr>) = (shared st)\<lparr>fault := e\<rparr>"
  "shared (st\<lparr>num_discovered_centroids := f\<rparr>) = shared st"
  by (simp_all add: shared_def weld_state.truncate_def)

lemma shared_neighbor_update:
  "shared (neighbor_update i c j st) = neighbor_update i c j (shared st)"
  by (simp add: neighbor_update_def Let_def)

lemma shared_fold_neighbor_update:
  "shared (fold (neighbor_update i c) js st) = fold (neighbor_update i c) js (shared st)"
  by (induction js arbitrary: st) (simp_all add: shared_neighbor_update)

lemma shared_wave_body_async:
  "shared (wave_body_async rt nn i st) = wave_body nn i (shared st)"
  by (simp add: wave_body_async_def wave_body_def Let_def shared_fold_neighbor_update)

lemma shared_fold_wave_body_async:
  "shared (fold (wave_body_async rt nn) xs st) = fold (wave_body nn) xs (shared st)"
  by (induction xs arbitrary: st) (simp_all add: shared_wave_body_async)

lemma shared_wave_async: "shared (wave_async rt nn st) = wave rt nn (shared st)"
  by (simp add: wave_async_def wave_def shared_fold_wave_body_async)

lemma wave_measure_shared: "wave_measure (shared st) = wave_measure st"
  by (simp add: wave_measure_def unemitted_def)

function wave_loop_async :: "omp_runtime \<Rightarrow> nat list list \<Rightarrow> async_state \<Rightarrow> async_state" where
  "wave_loop_async rt pid2nnBigger st =
    (if should_continue st then wave_loop_async rt pid2nnBigger (wave_async rt pid2nnBigger st)
     else st)"
  by pat_completeness auto
termination
proof (relation "measure (\<lambda>(rt, nn, st). wave_measure st)", goal_cases)
  case 1
  then show ?case by simp
next
  case (2 rt nn st)
  then have sc: "should_continue (shared st)" by simp
  have "wave_measure (wave_async rt nn st) = wave_measure (shared (wave_async rt nn st))"
    by (rule wave_measure_shared[symmetric])
  also have "\<dots> = wave_measure (wave rt nn (shared st))"
    by (simp only: shared_wave_async)
  also have "\<dots> < wave_measure (shared st)"
    using sc by (rule wave_measure_decreases)
  also have "\<dots> = wave_measure st" by (rule wave_measure_shared)
  finally show ?case by (simp only: in_measure prod.case)
qed

lemma shared_wave_loop_async:
  "shared (wave_loop_async rt nn st) = wave_loop rt nn (shared st)"
proof (induction rt nn st rule: wave_loop_async.induct)
  case (1 rt nn st)
  show ?case
  proof (cases "should_continue st")
    case True
    have "shared (wave_loop_async rt nn st) = shared (wave_loop_async rt nn (wave_async rt nn st))"
      using True by (simp add: wave_loop_async.simps[of rt nn st])
    also have "\<dots> = wave_loop rt nn (shared (wave_async rt nn st))"
      by (rule "1.IH"[OF True])
    also have "\<dots> = wave_loop rt nn (wave rt nn (shared st))"
      by (simp only: shared_wave_async)
    also have "\<dots> = wave_loop rt nn (shared st)"
      using True by (simp add: wave_loop.simps[of rt nn "shared st"])
    finally show ?thesis .
  next
    case False
    then show ?thesis
      by (simp add: wave_loop_async.simps[of rt nn st] wave_loop.simps[of rt nn "shared st"])
  qed
qed

text \<open>
  The state when the wave loop of \<^verbatim>\<open>merge_vertices_forward_async\<close> has ended.  The
  counters start as \<open>ints_per_cache_line * num_threads + 1\<close> zeros.
\<close>

definition weld_async :: "omp_runtime \<Rightarrow> KDTreeFlann \<Rightarrow> real \<Rightarrow> Vector3d list \<Rightarrow> async_state" where
  "weld_async rt kdtree eps vs =
    (let num_threads = omp_get_max_threads rt;
         (pid2nnBigger, st0) = weld_init kdtree eps vs
     in wave_loop_async rt pid2nnBigger
          (weld_state.extend st0
             \<lparr>num_discovered_centroids = replicate (ints_per_cache_line * num_threads + 1) 0\<rparr>))"

lemma shared_extend [simp]: "shared (weld_state.extend st x) = st"
  by (simp add: shared_def weld_state.truncate_def weld_state.extend_def)

lemma shared_weld_async: "shared (weld_async rt kdtree eps vs) = weld_forward rt kdtree eps vs"
  unfolding weld_async_def weld_forward_def Let_def split_beta shared_wave_loop_async shared_extend
  by (rule refl)

section \<open>Parents never point upwards\<close>

definition parents_below :: "nat list \<Rightarrow> bool" where
  "parents_below cp = (\<forall>i<length cp. cp ! i \<le> i)"

text \<open>
  The states that a welding call can pass through from \<open>st\<close>: a step is one pass through
  the body of the loop over the bigger neighbours, the only code that writes \<open>cp_vec\<close>,
  or any other update, which leaves \<open>cp_vec\<close> as it is (the decrement of the own
  counter, the single region, the count of a discovered centroid).
\<close>

inductive weld_steps :: "'a weld_state_scheme \<Rightarrow> 'a weld_state_scheme \<Rightarrow> bool" where
  start: "weld_steps st st"
| neighbour: "weld_steps st st' \<Longrightarrow> weld_steps st (neighbor_update i c j st')"
| other: "weld_steps st st' \<Longrightarrow> cp_vec st'' = cp_vec st' \<Longrightarrow> weld_steps st st''"

lemma weld_steps_trans: "weld_steps b c \<Longrightarrow> weld_steps a b \<Longrightarrow> weld_steps a c"
  by (induction rule: weld_steps.induct) (auto intro: weld_steps.intros)

lemma cas_min_smaller:
  "cas_min cp j desired ! j \<le> cp ! j"
  "cas_min cp j desired \<noteq> cp \<Longrightarrow> j < length cp \<Longrightarrow>
     cas_min cp j desired ! j = desired \<and> desired < cp ! j"
proof -
  show "cas_min cp j desired ! j \<le> cp ! j"
  proof (cases "j < length cp")
    case True
    then show ?thesis by (simp add: cas_min_def Let_def)
  next
    case False
    then have "cp[j := desired] = cp" by (intro list_update_beyond) simp
    then show ?thesis by (simp add: cas_min_def Let_def)
  qed
  show "cas_min cp j desired \<noteq> cp \<Longrightarrow> j < length cp \<Longrightarrow>
     cas_min cp j desired ! j = desired \<and> desired < cp ! j"
    by (simp add: cas_min_def Let_def split: if_splits)
qed

lemma cas_min_parents_below:
  assumes "parents_below cp"
  shows "parents_below (cas_min cp j desired)"
  unfolding parents_below_def
proof (intro allI impI)
  fix i assume i: "i < length (cas_min cp j desired)"
  then have i': "i < length cp" by (simp add: cas_min_def Let_def split: if_splits)
  with assms have le: "cp ! i \<le> i" by (simp add: parents_below_def)
  show "cas_min cp j desired ! i \<le> i"
  proof (cases "i = j")
    case True
    with cas_min_smaller(1)[of cp j desired] le show ?thesis by simp
  next
    case False
    then have "cas_min cp j desired ! i = cp ! i" by (simp add: cas_min_def Let_def)
    with le show ?thesis by simp
  qed
qed

lemma neighbor_update_parents_below:
  "parents_below (cp_vec st) \<Longrightarrow> parents_below (cp_vec (neighbor_update i c j st))"
  by (simp add: neighbor_update_def Let_def cas_min_parents_below)

lemma weld_steps_parents_below:
  "weld_steps st st' \<Longrightarrow> parents_below (cp_vec st) \<Longrightarrow> parents_below (cp_vec st')"
  by (induction rule: weld_steps.induct) (simp_all add: neighbor_update_parents_below)

lemma weld_steps_fold_neighbor_update:
  "weld_steps st (fold (neighbor_update i c) js st)"
proof (induction js arbitrary: st)
  case Nil
  show ?case by (simp add: weld_steps.start)
next
  case (Cons j js)
  have "weld_steps st (neighbor_update i c j st)"
    by (intro weld_steps.neighbour weld_steps.start)
  with Cons[of "neighbor_update i c j st"] show ?case
    by (auto intro: weld_steps_trans)
qed

lemma weld_steps_same_parents:
  assumes "cp_vec st1 = cp_vec st"
  shows "weld_steps st (fold (neighbor_update i c) js st1)"
  by (rule weld_steps_trans[OF weld_steps_fold_neighbor_update
        weld_steps.other[OF weld_steps.start assms]])

lemma weld_steps_wave_body: "weld_steps st (wave_body nn i st)"
proof (cases "remainingSmallerFinalsVec st ! i = 0")
  case True
  then show ?thesis
    by (simp add: wave_body_def Let_def weld_steps_same_parents)
next
  case False
  then show ?thesis by (simp add: wave_body_def weld_steps.start)
qed

lemma weld_steps_wave_body_async: "weld_steps st (wave_body_async rt nn i st)"
proof (cases "remainingSmallerFinalsVec st ! i = 0")
  case True
  then show ?thesis
    by (simp add: wave_body_async_def Let_def weld_steps_same_parents)
next
  case False
  then show ?thesis by (simp add: wave_body_async_def weld_steps.start)
qed

lemma weld_steps_fold:
  assumes "\<And>i st. weld_steps st (f i st)"
  shows "weld_steps st (fold f xs st)"
proof (induction xs arbitrary: st)
  case Nil
  show ?case by (simp add: weld_steps.start)
next
  case (Cons x xs)
  from Cons[of "f x st"] assms[of st x] show ?case by (auto intro: weld_steps_trans)
qed

lemma weld_steps_wave: "weld_steps st (wave rt nn st)"
proof -
  have "weld_steps st (st\<lparr>numIterations := numIterations st + 1, should_continue := False\<rparr>)"
    by (rule weld_steps.other[OF weld_steps.start]) simp
  then show ?thesis
    unfolding wave_def by (rule weld_steps_trans[OF weld_steps_fold[OF weld_steps_wave_body]])
qed

lemma weld_steps_wave_async: "weld_steps st (wave_async rt nn st)"
proof -
  have "weld_steps st (st\<lparr>numIterations := numIterations st + 1, should_continue := False\<rparr>)"
    by (rule weld_steps.other[OF weld_steps.start]) simp
  then show ?thesis
    unfolding wave_async_def
    by (rule weld_steps_trans[OF weld_steps_fold[OF weld_steps_wave_body_async]])
qed

lemma weld_steps_wave_loop: "weld_steps st (wave_loop rt nn st)"
proof (induction rt nn st rule: wave_loop.induct)
  case (1 rt nn st)
  show ?case
  proof (cases "should_continue st")
    case True
    from weld_steps_trans[OF "1.IH"[OF True] weld_steps_wave] True
    show ?thesis by (simp add: wave_loop.simps[of rt nn st])
  next
    case False
    then show ?thesis by (simp add: wave_loop.simps[of rt nn st] weld_steps.start)
  qed
qed

lemma weld_steps_wave_loop_async: "weld_steps st (wave_loop_async rt nn st)"
proof (induction rt nn st rule: wave_loop_async.induct)
  case (1 rt nn st)
  show ?case
  proof (cases "should_continue st")
    case True
    from weld_steps_trans[OF "1.IH"[OF True] weld_steps_wave_async] True
    show ?thesis by (simp add: wave_loop_async.simps[of rt nn st])
  next
    case False
    then show ?thesis by (simp add: wave_loop_async.simps[of rt nn st] weld_steps.start)
  qed
qed

text \<open>The state in which the wave loop of the asynchronous variant starts.\<close>

definition weld_init_async :: "omp_runtime \<Rightarrow> KDTreeFlann \<Rightarrow> real \<Rightarrow> Vector3d list \<Rightarrow> async_state" where
  "weld_init_async rt kdtree eps vs =
    weld_state.extend (snd (weld_init kdtree eps vs))
      \<lparr>num_discovered_centroids =
         replicate (ints_per_cache_line * omp_get_max_threads rt + 1) 0\<rparr>"

lemma weld_async_eq:
  "weld_async rt kdtree eps vs
     = wave_loop_async rt (fst (weld_init kdtree eps vs)) (weld_init_async rt kdtree eps vs)"
  by (simp add: weld_async_def weld_init_async_def split_beta Let_def)

lemma weld_forward_eq:
  "weld_forward rt kdtree eps vs
     = wave_loop rt (fst (weld_init kdtree eps vs)) (snd (weld_init kdtree eps vs))"
  by (simp add: weld_forward_def split_beta)

text \<open>
  Claim C1.  In both variants \<open>cp_vec\<close> starts as the identity; a compare-and-swap
  never raises an entry and, when it writes, writes a strictly smaller value; every state
  that a call passes through has \<open>cp_vec ! i \<le> i\<close> for all ids, and so has the state at
  the end of the wave loop, for every schedule; there the parent of every id is a
  centroid, so the centroid of the cluster of \<open>i\<close> is \<open>cp_vec ! i \<le> i\<close>.
\<close>

theorem parents_never_above:
  "cp_vec (snd (weld_init (KDTreeFlann_of mesh) eps (vertices mesh))) = [0..<length (vertices mesh)] \<and>
   cp_vec (weld_init_async rt (KDTreeFlann_of mesh) eps (vertices mesh))
     = [0..<length (vertices mesh)] \<and>
   (\<forall>cp j desired. cas_min cp j desired ! j \<le> cp ! j \<and>
      (j < length cp \<longrightarrow> cas_min cp j desired \<noteq> cp \<longrightarrow>
         cas_min cp j desired ! j = desired \<and> desired < cp ! j)) \<and>
   (\<forall>st. weld_steps (snd (weld_init (KDTreeFlann_of mesh) eps (vertices mesh))) st \<longrightarrow>
      parents_below (cp_vec st)) \<and>
   (\<forall>st. weld_steps (weld_init_async rt (KDTreeFlann_of mesh) eps (vertices mesh)) st \<longrightarrow>
      parents_below (cp_vec st)) \<and>
   weld_steps (snd (weld_init (KDTreeFlann_of mesh) eps (vertices mesh)))
     (weld_forward rt (KDTreeFlann_of mesh) eps (vertices mesh)) \<and>
   weld_steps (weld_init_async rt (KDTreeFlann_of mesh) eps (vertices mesh))
     (weld_async rt (KDTreeFlann_of mesh) eps (vertices mesh)) \<and>
   (\<forall>i<length (vertices mesh).
      cp_vec (weld_forward rt (KDTreeFlann_of mesh) eps (vertices mesh)) ! i \<le> i \<and>
      cp_vec (weld_forward rt (KDTreeFlann_of mesh) eps (vertices mesh)) !
        (cp_vec (weld_forward rt (KDTreeFlann_of mesh) eps (vertices mesh)) ! i)
        = cp_vec (weld_forward rt (KDTreeFlann_of mesh) eps (vertices mesh)) ! i \<and>
      cp_vec (weld_async rt (KDTreeFlann_of mesh) eps (vertices mesh)) ! i \<le> i \<and>
      cp_vec (weld_async rt (KDTreeFlann_of mesh) eps (vertices mesh)) !
        (cp_vec (weld_async rt (KDTreeFlann_of mesh) eps (vertices mesh)) ! i)
        = cp_vec (weld_async rt (KDTreeFlann_of mesh) eps (vertices mesh)) ! i) \<and>
   (\<exists>p2c nv.
      reduce (vertices mesh) (replicate (length (vertices mesh)) 0) []
        (cp_vec (weld_forward rt (KDTreeFlann_of mesh) eps (vertices mesh)))
        (length (vertices mesh)) = Inr (p2c, nv) \<and>
      (\<forall>i<length (vertices mesh). \<forall>c<length (vertices mesh).
         cp_vec (weld_forward rt (KDTreeFlann_of mesh) eps (vertices mesh)) ! c = c \<and>
         p2c ! c = p2c ! i \<longrightarrow> c \<le> i))"
proof -
  let ?vs = "vertices mesh" and ?kd = "KDTreeFlann_of mesh"
  let ?s = "snd (weld_init ?kd eps ?vs)" and ?a = "weld_init_async rt ?kd eps ?vs"
  have d: "data ?kd = ?vs" by (simp add: KDTreeFlann_of_def)
  have c0: "cp_vec ?s = [0..<length ?vs]" by (rule weld_init_st(1)[OF d])
  have a0: "cp_vec ?a = [0..<length ?vs]"
    using c0 by (simp add: weld_init_async_def weld_state.extend_def)
  have p0: "parents_below (cp_vec ?s)" and pa: "parents_below (cp_vec ?a)"
    unfolding c0 a0 by (simp_all add: parents_below_def)
  have cas: "\<forall>cp j desired. cas_min cp j desired ! j \<le> cp ! j \<and>
      (j < length cp \<longrightarrow> cas_min cp j desired \<noteq> cp \<longrightarrow>
         cas_min cp j desired ! j = desired \<and> desired < cp ! j)"
    using cas_min_smaller by blast
  have s1: "\<forall>st. weld_steps ?s st \<longrightarrow> parents_below (cp_vec st)"
    using weld_steps_parents_below p0 by blast
  have s2: "\<forall>st. weld_steps ?a st \<longrightarrow> parents_below (cp_vec st)"
    using weld_steps_parents_below pa by blast
  have r1: "weld_steps ?s (weld_forward rt ?kd eps ?vs)"
    unfolding weld_forward_eq by (rule weld_steps_wave_loop)
  have r2: "weld_steps ?a (weld_async rt ?kd eps ?vs)"
    unfolding weld_async_eq by (rule weld_steps_wave_loop_async)
  have ca: "cp_vec (weld_async rt ?kd eps ?vs) = cp_vec (weld_forward rt ?kd eps ?vs)"
    using shared_weld_async[of rt ?kd eps ?vs] shared_simps(1)[of "weld_async rt ?kd eps ?vs"]
    by simp
  have fin: "\<forall>i<length ?vs.
      cp_vec (weld_forward rt ?kd eps ?vs) ! i \<le> i \<and>
      cp_vec (weld_forward rt ?kd eps ?vs) ! (cp_vec (weld_forward rt ?kd eps ?vs) ! i)
        = cp_vec (weld_forward rt ?kd eps ?vs) ! i"
    using weld_forward_parents(2,3)[OF d] by blast
  let ?cp = "cp_vec (weld_forward rt ?kd eps ?vs)" and ?n = "length ?vs"
  have le: "\<forall>i<?n. ?cp ! i \<le> i" and idem: "\<forall>i<?n. ?cp ! (?cp ! i) = ?cp ! i"
    using fin by blast+
  have lc: "length ?cp = ?n"
  proof (cases "?n = 0")
    case True
    then show ?thesis
      by (simp add: weld_forward_def weld_init_def wave_loop.simps[of rt "[]"] wave_def omp_for_def)
  next
    case False
    then have "0 < ?n" by simp
    from weld_forward_parents(4)[OF d this] show ?thesis .
  qed
  from reduce_result[OF lc refl _ le, of "replicate ?n 0"] obtain p2c nv where
    r: "reduce ?vs (replicate ?n 0) [] ?cp ?n = Inr (p2c, nv)"
      "\<forall>i<?n. p2c ! (?cp ! i) = p2c ! i"
      "\<forall>i<?n. ?cp ! i = i \<longrightarrow> p2c ! i = card (centroids ?cp i)"
    by auto
  have "c \<le> i" if i: "i < ?n" and c: "c < ?n" and cc: "?cp ! c = c" and pc: "p2c ! c = p2c ! i"
    for i c
  proof -
    from same_cluster_iff[OF le idem r(2,3) c i] pc have "?cp ! c = ?cp ! i" by simp
    with cc le i show ?thesis by auto
  qed
  with r(1) have red: "\<exists>p2c nv. reduce ?vs (replicate ?n 0) [] ?cp ?n = Inr (p2c, nv) \<and>
      (\<forall>i<?n. \<forall>c<?n. ?cp ! c = c \<and> p2c ! c = p2c ! i \<longrightarrow> c \<le> i)"
    by blast
  show ?thesis
    unfolding ca using c0 a0 cas s1 s2 r1 r2 fin red by blast
qed

text \<open>
  The three collinear points under the descending schedule: both variants end with the
  parents \<open>[0, 0, 2]\<close>.
\<close>

theorem parents_never_above_witness:
  "parents_below (cp_vec (weld_forward (descending 3)
      (KDTreeFlann_of (TriangleMesh_of [Vector3d 0 0 0, Vector3d 1 0 0, Vector3d 2 0 0] [(0, 1, 2)]))
      1 [Vector3d 0 0 0, Vector3d 1 0 0, Vector3d 2 0 0])) \<and>
   cp_vec (weld_forward (descending 3)
      (KDTreeFlann_of (TriangleMesh_of [Vector3d 0 0 0, Vector3d 1 0 0, Vector3d 2 0 0] [(0, 1, 2)]))
      1 [Vector3d 0 0 0, Vector3d 1 0 0, Vector3d 2 0 0]) = [0, 0, 2] \<and>
   parents_below (cp_vec (weld_async (descending 3)
      (KDTreeFlann_of (TriangleMesh_of [Vector3d 0 0 0, Vector3d 1 0 0, Vector3d 2 0 0] [(0, 1, 2)]))
      1 [Vector3d 0 0 0, Vector3d 1 0 0, Vector3d 2 0 0])) \<and>
   cp_vec (weld_async (descending 3)
      (KDTreeFlann_of (TriangleMesh_of [Vector3d 0 0 0, Vector3d 1 0 0, Vector3d 2 0 0] [(0, 1, 2)]))
      1 [Vector3d 0 0 0, Vector3d 1 0 0, Vector3d 2 0 0]) = [0, 0, 2]"
proof -
  let ?vs = "[Vector3d 0 0 0, Vector3d 1 0 0, Vector3d 2 0 0]"
  let ?m = "TriangleMesh_of ?vs [(0, 1, 2)]"
  have vs: "vertices ?m = ?vs" by (simp add: TriangleMesh_of_def)
  note T = parents_never_above[of ?m 1 "descending 3", unfolded vs]
  from T have "parents_below (cp_vec (weld_forward (descending 3) (KDTreeFlann_of ?m) 1 ?vs))"
    by blast
  moreover from T
  have "parents_below (cp_vec (weld_async (descending 3) (KDTreeFlann_of ?m) 1 ?vs))"
    by blast
  moreover have "cp_vec (weld_forward (descending 3) (KDTreeFlann_of ?m) 1 ?vs) = [0, 0, 2]"
    by code_simp
  moreover have "cp_vec (weld_async (descending 3) (KDTreeFlann_of ?m) 1 ?vs) = [0, 0, 2]"
    by code_simp
  ultimately show ?thesis by blast
qed

subsection \<open>After the wave loop of the asynchronous variant\<close>

text \<open>\<^verbatim>\<open>std::exclusive_scan\<close> with initial value \<open>acc\<close>.\<close>

fun exclusive_scan :: "nat \<Rightarrow> nat list \<Rightarrow> nat list" where
  "exclusive_scan acc [] = []"
| "exclusive_scan acc (x # xs) = acc # exclusive_scan (acc + x) xs"

text \<open>
  The vectors of the passes after the wave loop: those of the reducer (\<open>n_clusters\<close>
  holds \<^verbatim>\<open>num_clusters\<close>) and, for every thread, its \<^verbatim>\<open>current_vertex_id\<close>.
\<close>

record async_reduce_state = reduce_state +
  current_vertex_id :: "nat list"

text \<open>A loop whose body may fail.\<close>

fun loop_over :: "(nat \<Rightarrow> 's \<Rightarrow> error + 's) \<Rightarrow> nat list \<Rightarrow> 's \<Rightarrow> error + 's" where
  "loop_over body [] st = Inr st"
| "loop_over body (i # rest) st =
    (case body i st of Inl e \<Rightarrow> Inl e | Inr st' \<Rightarrow> loop_over body rest st')"

text \<open>
  The body of the work-shared loop that gives every centroid its new id: the offset of
  the thread plus the number of centroids the thread has numbered so far.
\<close>

definition assign_body ::
  "omp_runtime \<Rightarrow> Vector3d list \<Rightarrow> nat list \<Rightarrow> nat list \<Rightarrow> nat
    \<Rightarrow> async_reduce_state \<Rightarrow> error + async_reduce_state" where
  "assign_body rt vs cp offsets i st =
    (if length cp \<le> i then Inl OutOfBounds
     else if cp ! i = i then
       let th_id = omp_get_thread_num rt i;
           slot = th_id * ints_per_cache_line
       in if length offsets \<le> slot \<or> length (current_vertex_id st) \<le> th_id
          then Inl OutOfBounds
          else
            let offset = offsets ! slot;
                ccid = offset + current_vertex_id st ! th_id
            in if length (new_vertices st) \<le> ccid \<or> length vs \<le> i
                  \<or> length (pid2ccid st) \<le> i
               then Inl OutOfBounds
               else Inr (st\<lparr>current_vertex_id :=
                             (current_vertex_id st)[th_id := current_vertex_id st ! th_id + 1],
                           new_vertices := (new_vertices st)[ccid := vs ! i],
                           pid2ccid := (pid2ccid st)[i := ccid]\<rparr>)
     else Inr st)"

text \<open>The body of the serial loop that adds every follower to the mean of its cluster.\<close>

definition follower_body ::
  "Vector3d list \<Rightarrow> nat list \<Rightarrow> nat \<Rightarrow> async_reduce_state \<Rightarrow> error + async_reduce_state" where
  "follower_body vs cp i st =
    (if length cp \<le> i \<or> length vs \<le> i then Inl OutOfBounds
     else if cp ! i \<noteq> i then
       if length (pid2ccid st) \<le> cp ! i then Inl OutOfBounds
       else
         let ccid = pid2ccid st ! (cp ! i) in
         if length (new_vertices st) \<le> ccid \<or> length (num_cluster_members_vec st) \<le> ccid
         then Inl OutOfBounds
         else Inr (st\<lparr>new_vertices := (new_vertices st)[ccid :=
                       (real (num_cluster_members_vec st ! ccid) *\<^sub>R (new_vertices st ! ccid)
                          + vs ! i)
                         /\<^sub>R (real (num_cluster_members_vec st ! ccid + 1))],
                     num_cluster_members_vec := (num_cluster_members_vec st)
                       [ccid := num_cluster_members_vec st ! ccid + 1]\<rparr>)
     else Inr st)"

text \<open>The triangle loop: \<^verbatim>\<open>triangle(k) = pid2ccid[cp_vec[triangle(k)]]\<close>.\<close>

definition rewrite_triangle_async ::
  "nat list \<Rightarrow> nat list \<Rightarrow> nat \<times> nat \<times> nat \<Rightarrow> error + nat \<times> nat \<times> nat" where
  "rewrite_triangle_async p2c cp t =
    (case t of (a, b, c) \<Rightarrow>
       if a < length cp \<and> b < length cp \<and> c < length cp \<and>
          cp ! a < length p2c \<and> cp ! b < length p2c \<and> cp ! c < length p2c
       then Inr (p2c ! (cp ! a), p2c ! (cp ! b), p2c ! (cp ! c)) else Inl OutOfBounds)"

fun rewrite_triangles_async ::
  "nat list \<Rightarrow> nat list \<Rightarrow> (nat \<times> nat \<times> nat) list \<Rightarrow> error + (nat \<times> nat \<times> nat) list" where
  "rewrite_triangles_async p2c cp [] = Inr []"
| "rewrite_triangles_async p2c cp (t # ts) =
    (case rewrite_triangle_async p2c cp t of
       Inl e \<Rightarrow> Inl e
     | Inr t' \<Rightarrow>
        (case rewrite_triangles_async p2c cp ts of Inl e \<Rightarrow> Inl e | Inr ts' \<Rightarrow> Inr (t' # ts')))"

text \<open>
  The passes after the wave loop, from the final parents and counters: the renumbering
  map and the new vertices.  The loop that numbers the centroids is the work-sharing
  region number \<open>region\<close>.
\<close>

definition async_reduce ::
  "omp_runtime \<Rightarrow> nat \<Rightarrow> Vector3d list \<Rightarrow> nat list \<Rightarrow> nat list
    \<Rightarrow> error + (nat list \<times> Vector3d list)" where
  "async_reduce rt region vs cp counters =
    (let numVertices = length vs;
         num_threads = omp_get_max_threads rt;
         offsets = exclusive_scan 0 counters;
         total = num_threads * ints_per_cache_line
     in if length offsets \<le> total then Inl OutOfBounds
        else
          let num_clusters = offsets ! total;
              st0 = \<lparr>pid2ccid = replicate numVertices 0,
                     new_vertices = replicate num_clusters 0,
                     n_clusters = num_clusters,
                     num_cluster_members_vec = replicate num_clusters 1,
                     current_vertex_id = replicate num_threads 0\<rparr>
          in case loop_over (assign_body rt vs cp offsets) (omp_for rt region numVertices) st0 of
               Inl e \<Rightarrow> Inl e
             | Inr st1 \<Rightarrow>
                (case loop_over (follower_body vs cp) [0..<numVertices] st1 of
                   Inl e \<Rightarrow> Inl e
                 | Inr st2 \<Rightarrow> Inr (pid2ccid st2, new_vertices st2)))"

text \<open>
  \<open>merge_vertices_forward_async\<close>.  The triangle loop is work-shared with
  \<^verbatim>\<open>schedule (dynamic, num_clusters / num_threads / 2u)\<close>, where \<^verbatim>\<open>num_clusters\<close> is the
  last entry of the scanned counters; both divisions are of numbers that are not
  negative.  With fewer than two clusters per thread the chunk size is \<open>0\<close>.
\<close>

definition merge_vertices_forward_async ::
  "omp_runtime \<Rightarrow> KDTreeFlann \<Rightarrow> real \<Rightarrow> TriangleMesh \<Rightarrow> error + TriangleMesh" where
  "merge_vertices_forward_async rt kdtree eps mesh =
    (let num_threads = omp_get_max_threads rt;
         st = weld_async rt kdtree eps (vertices mesh)
     in if fault st then Inl OutOfBounds
        else
          case async_reduce rt (numIterations st) (vertices mesh) (cp_vec st)
                 (num_discovered_centroids st) of
            Inl e \<Rightarrow> Inl e
          | Inr (p2c, nv) \<Rightarrow>
             let num_clusters = exclusive_scan 0 (num_discovered_centroids st)
                                  ! (num_threads * ints_per_cache_line)
             in if num_clusters div num_threads div 2 = 0 then Inl ZeroChunkSize
                else
                  (case rewrite_triangles_async p2c (cp_vec st) (triangles mesh) of
                     Inl e \<Rightarrow> Inl e
                   | Inr ts \<Rightarrow> Inr (mesh\<lparr>triangles := ts, vertices := nv\<rparr>)))"

text \<open>
  A team of two threads that share the iterations in turn and run every loop of at most
  ten iterations in descending order.
\<close>

definition two_threads :: omp_runtime where
  "two_threads = \<lparr>omp_when = (\<lambda>k i. 10 - i), omp_thread_of = (\<lambda>i. i), omp_threads = 1\<rparr>"

section \<open>The two variants agree\<close>

subsection \<open>The final parents do not depend on the schedule\<close>




subsection \<open>The counters of discovered centroids\<close>

lemma neighbor_update_counters [simp]:
  "num_discovered_centroids (neighbor_update i c j st) = num_discovered_centroids st"
  by (simp add: neighbor_update_def Let_def)

lemma fold_neighbor_update_counters [simp]:
  "num_discovered_centroids (fold (neighbor_update i c) js st) = num_discovered_centroids st"
  by (induction js arbitrary: st) simp_all




text \<open>
  The centroids that thread \<open>t\<close> has discovered: the emitted vertices of \<open>t\<close> that are
  their own parent.
\<close>

definition discovered :: "omp_runtime \<Rightarrow> 'a weld_state_scheme \<Rightarrow> nat \<Rightarrow> nat set" where
  "discovered rt st t = {c \<in> emitted st. cp_vec st ! c = c \<and> omp_get_thread_num rt c = t}"

text \<open>
  Slot \<open>ints_per_cache_line * t\<close> counts the centroids that thread \<open>t\<close> has discovered;
  the padding and the last slot hold zero.
\<close>

definition counters_inv :: "omp_runtime \<Rightarrow> async_state \<Rightarrow> bool" where
  "counters_inv rt st \<longleftrightarrow>
    length (num_discovered_centroids st) = ints_per_cache_line * omp_get_max_threads rt + 1 \<and>
    (\<forall>k<length (num_discovered_centroids st).
       num_discovered_centroids st ! k =
         (if k mod ints_per_cache_line = 0 \<and> k div ints_per_cache_line < omp_get_max_threads rt
          then card (discovered rt st (k div ints_per_cache_line)) else 0))"


lemma emitted_finite [simp]: "finite (emitted st)"
  by (simp add: emitted_def)

lemma discovered_finite [simp]: "finite (discovered rt st t)"
  by (simp add: discovered_def)


lemma counters_inv_flags [simp]:
  "counters_inv rt (st\<lparr>numIterations := a, should_continue := b\<rparr>) = counters_inv rt st"
  by (simp add: counters_inv_def discovered_def emitted_def)







subsection \<open>Offsets of the threads\<close>

lemma exclusive_scan_length [simp]: "length (exclusive_scan acc xs) = length xs"
  by (induction xs arbitrary: acc) simp_all




text \<open>The centroids that the schedule gives to thread \<open>t\<close>, and how many there are before it.\<close>

definition thread_centroids :: "omp_runtime \<Rightarrow> nat list \<Rightarrow> nat \<Rightarrow> nat \<Rightarrow> nat set" where
  "thread_centroids rt cp n t = {c. c < n \<and> cp ! c = c \<and> omp_get_thread_num rt c = t}"


lemma thread_centroids_finite [simp]: "finite (thread_centroids rt cp n t)"
  by (simp add: thread_centroids_def)





subsection \<open>The pass that numbers the centroids\<close>






subsection \<open>The pass that adds the followers\<close>


text \<open>The members of the cluster of centroid \<open>c\<close> among the centroid itself and the ids below \<open>k\<close>.\<close>

definition cluster_upto :: "nat list \<Rightarrow> nat \<Rightarrow> nat \<Rightarrow> nat \<Rightarrow> nat set" where
  "cluster_upto cp n k c = {i. i < n \<and> cp ! i = c \<and> (i = c \<or> i < k)}"

lemma cluster_upto_finite [simp]: "finite (cluster_upto cp n k c)"
  by (simp add: cluster_upto_def)












subsection \<open>The new ids of the two variants\<close>

lemma centroids_finite [simp]: "finite (centroids cp n)"
  by (simp add: centroids_def)










text \<open>
  An index over other points than the vertices of the mesh: the second vertex is not in
  the index and finds no neighbour at or below its own id, so it never becomes an active
  source.  The synchronous variant keeps it as a cluster of its own; the asynchronous
  variant has counted one centroid only and writes the second one outside the new
  vertex list.
\<close>

lemma foreign_index_variants:
  "merge_vertices_forward sequential (KDTreeFlann_of (TriangleMesh_of [Vector3d 0 0 0] []))
      1 (TriangleMesh_of [Vector3d 0 0 0, Vector3d 5 0 0] [])
     = Inr (TriangleMesh_of [Vector3d 0 0 0, Vector3d 5 0 0] []) \<and>
   merge_vertices_forward_async sequential (KDTreeFlann_of (TriangleMesh_of [Vector3d 0 0 0] []))
      1 (TriangleMesh_of [Vector3d 0 0 0, Vector3d 5 0 0] []) = Inl OutOfBounds"
  by code_simp

text \<open>
  Four vertices welded into three by a team of two threads: the chunk size of the
  triangle loop is \<open>3 / 2 / 2 = 0\<close>.
\<close>

lemma zero_chunk_size_variants:
  "merge_vertices_forward two_threads
      (KDTreeFlann_of (TriangleMesh_of
         [Vector3d 0 0 6, Vector3d 0 0 0, Vector3d 5 0 0, Vector3d (-5) 0 0] [(0, 1, 2), (1, 2, 3)]))
      6 (TriangleMesh_of
         [Vector3d 0 0 6, Vector3d 0 0 0, Vector3d 5 0 0, Vector3d (-5) 0 0] [(0, 1, 2), (1, 2, 3)])
    = Inr (TriangleMesh_of [Vector3d 0 0 3, Vector3d 5 0 0, Vector3d (-5) 0 0]
             [(0, 0, 1), (0, 1, 2)]) \<and>
   merge_vertices_forward_async two_threads
      (KDTreeFlann_of (TriangleMesh_of
         [Vector3d 0 0 6, Vector3d 0 0 0, Vector3d 5 0 0, Vector3d (-5) 0 0] [(0, 1, 2), (1, 2, 3)]))
      6 (TriangleMesh_of
         [Vector3d 0 0 6, Vector3d 0 0 0, Vector3d 5 0 0, Vector3d (-5) 0 0] [(0, 1, 2), (1, 2, 3)])
    = Inl ZeroChunkSize"
  by code_simp

section \<open>Epsilon finder (\<^verbatim>\<open>find-eps.cpp\<close>)\<close>

subsection \<open>Double precision arithmetic\<close>

text \<open>
  The values of the type \<^verbatim>\<open>double\<close>: the finite numbers, the two infinities and
  not-a-number.  The two zeros are not told apart.  Every operation computes the exact
  result and rounds it to the nearest number with \<open>53\<close> significant bits, ties to the even
  one (IEEE 754 binary64, the default rounding mode).
\<close>

datatype double = Finite real | PlusInfinity | MinusInfinity | NaN

text \<open>Rounding to the nearest integer, ties to the even one.\<close>

definition round_to_even :: "real \<Rightarrow> int" where
  "round_to_even y =
    (let f = \<lfloor>y\<rfloor> in
     if y - of_int f < 1 / 2 then f
     else if 1 / 2 < y - of_int f then f + 1
     else if even f then f else f + 1)"

text \<open>The exponent \<open>e\<close> of a number other than zero: \<open>2\<^sup>e \<le> \<bar>x\<bar> < 2\<^sup>e\<^sup>+\<^sup>1\<close>.\<close>

function binade :: "real \<Rightarrow> int" where
  "binade x =
    (if x = 0 then 0
     else if 2 \<le> \<bar>x\<bar> then binade (x / 2) + 1
     else if \<bar>x\<bar> < 1 then binade (2 * x) - 1
     else 0)"
  by pat_completeness auto
termination
proof (relation "measure (\<lambda>x. nat \<bar>\<lfloor>log 2 \<bar>x\<bar>\<rfloor>\<bar>)", goal_cases)
  case 1
  then show ?case by simp
next
  case (2 x)
  then have "log 2 \<bar>x / 2\<bar> = log 2 \<bar>x\<bar> - 1" by (simp add: log_divide)
  moreover have "1 \<le> log 2 \<bar>x\<bar>" using 2 by (simp add: le_log_iff)
  ultimately show ?case by (simp add: floor_diff_one)
next
  case (3 x)
  then have e: "\<lfloor>log 2 \<bar>2 * x\<bar>\<rfloor> = \<lfloor>log 2 \<bar>x\<bar>\<rfloor> + 1"
    by (simp add: abs_mult log_mult)
  have "log 2 \<bar>x\<bar> < 0" using 3 by (simp add: log_less_zero_cancel_iff)
  then have "\<lfloor>log 2 \<bar>x\<bar>\<rfloor> < 0" by linarith
  then have "nat \<bar>\<lfloor>log 2 \<bar>2 * x\<bar>\<rfloor>\<bar> < nat \<bar>\<lfloor>log 2 \<bar>x\<bar>\<rfloor>\<bar>"
    unfolding e by linarith
  then show ?case by (simp only: in_measure)
qed

declare binade.simps [simp del]

text \<open>
  The \<^verbatim>\<open>double\<close> nearest to a real number.  A number in the binade \<open>e\<close> is rounded to a
  multiple of \<open>2\<^sup>e\<^sup>-\<^sup>5\<^sup>2\<close>; below the binade \<open>-1022\<close> the numbers are the multiples of
  \<open>2\<^sup>-\<^sup>1\<^sup>0\<^sup>7\<^sup>4\<close>; a result of magnitude \<open>2\<^sup>1\<^sup>0\<^sup>2\<^sup>4\<close> or more is an infinity.
\<close>

definition round_double :: "real \<Rightarrow> double" where
  "round_double x =
    (if x = 0 then Finite 0
     else
       let e = max (binade x) (- 1022);
           r = (if e \<le> 52
                then of_int (round_to_even (x * 2 ^ nat (52 - e))) / 2 ^ nat (52 - e)
                else of_int (round_to_even (x / 2 ^ nat (e - 52))) * 2 ^ nat (e - 52))
       in if 2 ^ 1024 \<le> \<bar>r\<bar> then (if 0 < x then PlusInfinity else MinusInfinity)
          else Finite r)"

fun dadd :: "double \<Rightarrow> double \<Rightarrow> double" where
  "dadd (Finite x) (Finite y) = round_double (x + y)"
| "dadd NaN _ = NaN"
| "dadd _ NaN = NaN"
| "dadd PlusInfinity MinusInfinity = NaN"
| "dadd MinusInfinity PlusInfinity = NaN"
| "dadd PlusInfinity _ = PlusInfinity"
| "dadd _ PlusInfinity = PlusInfinity"
| "dadd MinusInfinity _ = MinusInfinity"
| "dadd _ MinusInfinity = MinusInfinity"

fun dneg :: "double \<Rightarrow> double" where
  "dneg (Finite x) = Finite (- x)"
| "dneg PlusInfinity = MinusInfinity"
| "dneg MinusInfinity = PlusInfinity"
| "dneg NaN = NaN"

definition dsub :: "double \<Rightarrow> double \<Rightarrow> double" where
  "dsub x y = dadd x (dneg y)"

text \<open>Division; a zero divisor is the positive zero.\<close>

fun ddiv :: "double \<Rightarrow> double \<Rightarrow> double" where
  "ddiv (Finite x) (Finite y) =
    (if y = 0 then (if x = 0 then NaN else if 0 < x then PlusInfinity else MinusInfinity)
     else round_double (x / y))"
| "ddiv NaN _ = NaN"
| "ddiv _ NaN = NaN"
| "ddiv (Finite x) _ = Finite 0"
| "ddiv PlusInfinity (Finite y) = (if 0 \<le> y then PlusInfinity else MinusInfinity)"
| "ddiv MinusInfinity (Finite y) = (if 0 \<le> y then MinusInfinity else PlusInfinity)"
| "ddiv _ _ = NaN"

text \<open>The comparisons \<^verbatim>\<open><\<close>, \<^verbatim>\<open><=\<close> and \<^verbatim>\<open>>=\<close>: false whenever an operand is not a number.\<close>

fun dless :: "double \<Rightarrow> double \<Rightarrow> bool" where
  "dless (Finite x) (Finite y) = (x < y)"
| "dless NaN _ = False"
| "dless _ NaN = False"
| "dless (Finite x) PlusInfinity = True"
| "dless (Finite x) MinusInfinity = False"
| "dless PlusInfinity _ = False"
| "dless MinusInfinity MinusInfinity = False"
| "dless MinusInfinity _ = True"

fun dle :: "double \<Rightarrow> double \<Rightarrow> bool" where
  "dle (Finite x) (Finite y) = (x \<le> y)"
| "dle NaN _ = False"
| "dle _ NaN = False"
| "dle (Finite x) PlusInfinity = True"
| "dle (Finite x) MinusInfinity = False"
| "dle PlusInfinity PlusInfinity = True"
| "dle PlusInfinity _ = False"
| "dle MinusInfinity _ = True"

definition dge :: "double \<Rightarrow> double \<Rightarrow> bool" where
  "dge x y = dle y x"

text \<open>
  \<^verbatim>\<open>size_t\<close> has \<open>64\<close> bits: its subtraction wraps around, and its conversion to
  \<^verbatim>\<open>double\<close> rounds.
\<close>

definition size_t_minus :: "nat \<Rightarrow> nat \<Rightarrow> nat" where
  "size_t_minus a b = nat ((int a - int b) mod 2 ^ 64)"

definition double_of_size_t :: "nat \<Rightarrow> double" where
  "double_of_size_t n = round_double (real n)"

subsection \<open>The functions of the epsilon finder\<close>

definition EPSILON_STEP_SIZE :: double where
  "EPSILON_STEP_SIZE = round_double (1 / 100)"

definition REDUCTION_RATE_MIN_ERROR :: double where
  "REDUCTION_RATE_MIN_ERROR = round_double (1 / 100000)"

definition EPSILON_MIN_RANGE :: double where
  "EPSILON_MIN_RANGE = round_double (1 / 10000000)"

record BinarySearchVals =
  epsilon_min_boundary :: double
  epsilon_max_boundary :: double
  reduction_rate_on_min_boundary :: double
  reduction_rate_on_max_boundary :: double

text \<open>
  \<open>get_reduction_rate\<close> welds a copy of the mesh and divides the difference of the two
  vertex counts, computed in \<^verbatim>\<open>size_t\<close>, by the first count as a \<^verbatim>\<open>double\<close>: for a mesh
  without vertices this is zero divided by zero, not a number.  The welder of the model
  takes the radius as a real number.
\<close>

definition get_reduction_rate ::
  "omp_runtime \<Rightarrow> KDTreeFlann \<Rightarrow> TriangleMesh \<Rightarrow> double \<Rightarrow> error + double" where
  "get_reduction_rate rt kdtree mesh epsilon =
    (let initial_vertex_count = length (vertices mesh) in
     case epsilon of
       Finite eps \<Rightarrow>
         (case merge_vertices_forward rt kdtree eps mesh of
            Inl e \<Rightarrow> Inl e
          | Inr mesh' \<Rightarrow>
              Inr (ddiv (double_of_size_t
                           (size_t_minus initial_vertex_count (length (vertices mesh'))))
                        (double_of_size_t initial_vertex_count)))
     | _ \<Rightarrow> Inl NonFiniteRadius)"

definition max_epsilon_searched :: double where
  "max_epsilon_searched = Finite 10"

text \<open>
  The \<^verbatim>\<open>for\<close> loop of \<open>find_epsilon_range_by_linear_search\<close>; \<open>None\<close> stands for a
  loop that does not end.  Past the loop the source runs \<^verbatim>\<open>assert( "..." && false )\<close>,
  which aborts the program (the macro \<^verbatim>\<open>NDEBUG\<close> is defined nowhere in the sources); the
  \<^verbatim>\<open>return\<close> behind it is, as its comment says, unreachable.
\<close>

partial_function (option) linear_search_loop ::
  "omp_runtime \<Rightarrow> KDTreeFlann \<Rightarrow> TriangleMesh \<Rightarrow> double \<Rightarrow> double \<Rightarrow> double
    \<Rightarrow> (error + BinarySearchVals) option" where
  "linear_search_loop rt kdtree mesh target_reduction_rate epsilon prev_reduction_rate =
    (if dless epsilon max_epsilon_searched then
       case get_reduction_rate rt kdtree mesh epsilon of
         Inl e \<Rightarrow> Some (Inl e)
       | Inr reduction_rate \<Rightarrow>
           if dge reduction_rate target_reduction_rate then
             Some (Inr \<lparr>epsilon_min_boundary = dsub epsilon EPSILON_STEP_SIZE,
                        epsilon_max_boundary = epsilon,
                        reduction_rate_on_min_boundary = prev_reduction_rate,
                        reduction_rate_on_max_boundary = reduction_rate\<rparr>)
           else linear_search_loop rt kdtree mesh target_reduction_rate
                  (dadd epsilon EPSILON_STEP_SIZE) reduction_rate
     else Some (Inl AssertionFailed))"

definition find_epsilon_range_by_linear_search ::
  "omp_runtime \<Rightarrow> KDTreeFlann \<Rightarrow> TriangleMesh \<Rightarrow> double
    \<Rightarrow> (error + BinarySearchVals) option" where
  "find_epsilon_range_by_linear_search rt kdtree mesh target_reduction_rate =
    linear_search_loop rt kdtree mesh target_reduction_rate EPSILON_STEP_SIZE (Finite 0)"

text \<open>\<open>find_epsilon_binary_search\<close>; \<open>None\<close> stands for a recursion that does not end.\<close>

partial_function (option) find_epsilon_binary_search ::
  "omp_runtime \<Rightarrow> KDTreeFlann \<Rightarrow> TriangleMesh \<Rightarrow> double \<Rightarrow> BinarySearchVals
    \<Rightarrow> (error + double) option" where
  "find_epsilon_binary_search rt kdtree mesh target_reduction_rate boundary_data =
    (let range = dsub (epsilon_max_boundary boundary_data) (epsilon_min_boundary boundary_data);
         epsilon_midpoint = dadd (epsilon_min_boundary boundary_data) (ddiv range (Finite 2))
     in
     if dle (dsub (epsilon_max_boundary boundary_data) (epsilon_min_boundary boundary_data))
          EPSILON_MIN_RANGE
     then Some (Inr epsilon_midpoint)
     else if dless (dsub (reduction_rate_on_max_boundary boundary_data)
                         (reduction_rate_on_min_boundary boundary_data))
               REDUCTION_RATE_MIN_ERROR
     then Some (Inr epsilon_midpoint)
     else
       case get_reduction_rate rt kdtree mesh epsilon_midpoint of
         Inl e \<Rightarrow> Some (Inl e)
       | Inr reduction_rate_on_midpoint \<Rightarrow>
           if dle reduction_rate_on_midpoint target_reduction_rate then
             (if dless (dsub target_reduction_rate reduction_rate_on_midpoint)
                   REDUCTION_RATE_MIN_ERROR
              then Some (Inr epsilon_midpoint)
              else find_epsilon_binary_search rt kdtree mesh target_reduction_rate
                     \<lparr>epsilon_min_boundary = epsilon_midpoint,
                      epsilon_max_boundary = epsilon_max_boundary boundary_data,
                      reduction_rate_on_min_boundary = reduction_rate_on_midpoint,
                      reduction_rate_on_max_boundary =
                        reduction_rate_on_max_boundary boundary_data\<rparr>)
           else
             (if dless (dsub reduction_rate_on_midpoint target_reduction_rate)
                   REDUCTION_RATE_MIN_ERROR
              then Some (Inr epsilon_midpoint)
              else find_epsilon_binary_search rt kdtree mesh target_reduction_rate
                     \<lparr>epsilon_min_boundary = epsilon_min_boundary boundary_data,
                      epsilon_max_boundary = epsilon_midpoint,
                      reduction_rate_on_min_boundary =
                        reduction_rate_on_min_boundary boundary_data,
                      reduction_rate_on_max_boundary = reduction_rate_on_midpoint\<rparr>))"

text \<open>
  \<open>find_epsilon\<close>: the bracket is an argument of the call of the binary search, so it
  is computed first, and a failed assertion there ends the program before any result
  is printed.
\<close>

definition find_epsilon ::
  "omp_runtime \<Rightarrow> KDTreeFlann \<Rightarrow> TriangleMesh \<Rightarrow> double \<Rightarrow> (error + double) option" where
  "find_epsilon rt kdtree mesh reduction_rate =
    (case find_epsilon_range_by_linear_search rt kdtree mesh reduction_rate of
       None \<Rightarrow> None
     | Some (Inl e) \<Rightarrow> Some (Inl e)
     | Some (Inr boundary_data) \<Rightarrow>
         find_epsilon_binary_search rt kdtree mesh reduction_rate boundary_data)"

subsection \<open>The radii of the bracket phase\<close>

text \<open>The value of \<open>epsilon\<close> after \<open>k\<close> increments, from \<open>e\<close> and from the first radius.\<close>

primrec walk :: "double \<Rightarrow> nat \<Rightarrow> double" where
  "walk e 0 = e"
| "walk e (Suc k) = dadd (walk e k) EPSILON_STEP_SIZE"

definition epsilon_at :: "nat \<Rightarrow> double" where
  "epsilon_at k = walk EPSILON_STEP_SIZE k"

text \<open>
  \<open>climbs n e e'\<close>: \<open>n\<close> increments lead from \<open>e\<close> to \<open>e'\<close>, each from a positive number to
  a greater number.
\<close>

fun climbs :: "nat \<Rightarrow> double \<Rightarrow> double \<Rightarrow> bool" where
  "climbs 0 e e' = (e = e')"
| "climbs (Suc n) e e' =
    (case e of
       Finite x \<Rightarrow>
         (case dadd e EPSILON_STEP_SIZE of
            Finite y \<Rightarrow> 0 < x \<and> x < y \<and> climbs n (Finite y) e'
          | _ \<Rightarrow> False)
     | _ \<Rightarrow> False)"

lemmas double_eval = round_double_def binade.simps Let_def round_to_even_def

lemma EPSILON_STEP_SIZE_value:
  "EPSILON_STEP_SIZE = Finite (5764607523034235 / 576460752303423488)"
  unfolding EPSILON_STEP_SIZE_def by (simp add: double_eval)

lemma climbs_numeral:
  "climbs (numeral k) (Finite x) e' =
    (case dadd (Finite x) EPSILON_STEP_SIZE of
       Finite y \<Rightarrow> 0 < x \<and> x < y \<and> climbs (pred_numeral k) (Finite y) e'
     | _ \<Rightarrow> False)"
  by (simp add: numeral_eq_Suc)

lemma walk_shift: "walk e (Suc k) = walk (dadd e EPSILON_STEP_SIZE) k"
  by (induction k) simp_all

lemma walk_add: "walk e (m + n) = walk (walk e m) n"
  by (induction n) simp_all

lemma climbs_trans: "climbs m a b \<Longrightarrow> climbs n b c \<Longrightarrow> climbs (m + n) a c"
  by (induction m arbitrary: a) (auto split: double.splits)

lemma climbs_walk: "climbs n a b \<Longrightarrow> walk a n = b"
proof (induction n arbitrary: a)
  case 0
  then show ?case by simp
next
  case (Suc n)
  then obtain x y where "a = Finite x" "dadd a EPSILON_STEP_SIZE = Finite y"
    "climbs n (Finite y) b"
    by (auto split: double.splits)
  with Suc.IH[of "Finite y"] show ?case by (simp only: walk_shift)
qed

lemma climbs_between:
  "climbs n (Finite x) b \<Longrightarrow> 0 < x \<Longrightarrow> j \<le> n \<Longrightarrow>
    \<exists>y z. b = Finite z \<and> walk (Finite x) j = Finite y \<and> x \<le> y \<and> y \<le> z"
proof (induction n arbitrary: x j)
  case 0
  then show ?case by auto
next
  case (Suc n)
  from Suc.prems(1) obtain x' where s: "dadd (Finite x) EPSILON_STEP_SIZE = Finite x'"
    and lt: "x < x'" and c: "climbs n (Finite x') b"
    by (auto split: double.splits)
  have x': "0 < x'" using lt Suc.prems(2) by simp
  show ?case
  proof (cases j)
    case 0
    from Suc.IH[OF c x', of 0] obtain z where "b = Finite z" "x' \<le> z" by auto
    then show ?thesis using 0 lt by auto
  next
    case (Suc i)
    then have "i \<le> n" using Suc.prems(3) by simp
    from Suc.IH[OF c x' this] obtain y z where
      "b = Finite z" "walk (Finite x') i = Finite y" "x' \<le> y" "y \<le> z"
      by auto
    moreover have "walk (Finite x) j = walk (Finite x') i"
      unfolding Suc by (simp only: walk_shift s)
    moreover have "x \<le> y" using lt \<open>x' \<le> y\<close> by simp
    ultimately show ?thesis by simp
  qed
qed

lemma climbs_0_100:
  "climbs 100 (Finite (5764607523034235 / 576460752303423488)) (Finite (1137158905911051 / 1125899906842624))"
  by (simp add: double_eval climbs_numeral EPSILON_STEP_SIZE_value)

lemma climbs_100_200:
  "climbs 100 (Finite (1137158905911051 / 1125899906842624)) (Finite (4526117625507351 / 2251799813685248))"
  by (simp add: double_eval climbs_numeral EPSILON_STEP_SIZE_value)

lemma climbs_200_300:
  "climbs 100 (Finite (4526117625507351 / 2251799813685248)) (Finite (6777917439192551 / 2251799813685248))"
  by (simp add: double_eval climbs_numeral EPSILON_STEP_SIZE_value)

lemma climbs_300_400:
  "climbs 100 (Finite (6777917439192551 / 2251799813685248)) (Finite (1128714656609719 / 281474976710656))"
  by (simp add: double_eval climbs_numeral EPSILON_STEP_SIZE_value)

lemma climbs_400_500:
  "climbs 100 (Finite (1128714656609719 / 281474976710656)) (Finite (1410189633320369 / 281474976710656))"
  by (simp add: double_eval climbs_numeral EPSILON_STEP_SIZE_value)

lemma climbs_500_600:
  "climbs 100 (Finite (1410189633320369 / 281474976710656)) (Finite (1691664610031019 / 281474976710656))"
  by (simp add: double_eval climbs_numeral EPSILON_STEP_SIZE_value)

lemma climbs_600_700:
  "climbs 100 (Finite (1691664610031019 / 281474976710656)) (Finite (1973139586741669 / 281474976710656))"
  by (simp add: double_eval climbs_numeral EPSILON_STEP_SIZE_value)

lemma climbs_700_800:
  "climbs 100 (Finite (1973139586741669 / 281474976710656)) (Finite (2254614563452319 / 281474976710656))"
  by (simp add: double_eval climbs_numeral EPSILON_STEP_SIZE_value)

lemma climbs_800_900:
  "climbs 100 (Finite (2254614563452319 / 281474976710656)) (Finite (2536089540162969 / 281474976710656))"
  by (simp add: double_eval climbs_numeral EPSILON_STEP_SIZE_value)

lemma climbs_900_998:
  "climbs 98 (Finite (2536089540162969 / 281474976710656)) (Finite (1405967508669703 / 140737488355328))"
  by (simp add: double_eval climbs_numeral EPSILON_STEP_SIZE_value)



lemma climbs_0_200:
  "climbs 200 (Finite (5764607523034235 / 576460752303423488)) (Finite (4526117625507351 / 2251799813685248))"
  using climbs_trans[OF climbs_0_100 climbs_100_200] by simp

lemma climbs_0_300:
  "climbs 300 (Finite (5764607523034235 / 576460752303423488)) (Finite (6777917439192551 / 2251799813685248))"
  using climbs_trans[OF climbs_0_200 climbs_200_300] by simp

lemma climbs_0_400:
  "climbs 400 (Finite (5764607523034235 / 576460752303423488)) (Finite (1128714656609719 / 281474976710656))"
  using climbs_trans[OF climbs_0_300 climbs_300_400] by simp

lemma climbs_0_500:
  "climbs 500 (Finite (5764607523034235 / 576460752303423488)) (Finite (1410189633320369 / 281474976710656))"
  using climbs_trans[OF climbs_0_400 climbs_400_500] by simp

lemma climbs_0_600:
  "climbs 600 (Finite (5764607523034235 / 576460752303423488)) (Finite (1691664610031019 / 281474976710656))"
  using climbs_trans[OF climbs_0_500 climbs_500_600] by simp

lemma climbs_0_700:
  "climbs 700 (Finite (5764607523034235 / 576460752303423488)) (Finite (1973139586741669 / 281474976710656))"
  using climbs_trans[OF climbs_0_600 climbs_600_700] by simp

lemma climbs_0_800:
  "climbs 800 (Finite (5764607523034235 / 576460752303423488)) (Finite (2254614563452319 / 281474976710656))"
  using climbs_trans[OF climbs_0_700 climbs_700_800] by simp

lemma climbs_0_900:
  "climbs 900 (Finite (5764607523034235 / 576460752303423488)) (Finite (2536089540162969 / 281474976710656))"
  using climbs_trans[OF climbs_0_800 climbs_800_900] by simp

lemma climbs_0_998:
  "climbs 998 (Finite (5764607523034235 / 576460752303423488)) (Finite (1405967508669703 / 140737488355328))"
  using climbs_trans[OF climbs_0_900 climbs_900_998] by simp

text \<open>
  The first \<open>999\<close> radii climb from \<open>0.01\<close> to \<open>9.989999999999831\<close>; the next one is
  \<open>9.999999999999831\<close>, still below the cap, and the one after it is above the cap.
\<close>

lemma epsilon_at_998: "epsilon_at 998 = Finite (1405967508669703 / 140737488355328)"
  unfolding epsilon_at_def EPSILON_STEP_SIZE_value by (rule climbs_walk[OF climbs_0_998])

lemma epsilon_at_999: "epsilon_at 999 = Finite (5629499534213025 / 562949953421312)"
proof -
  have "epsilon_at 999 = dadd (epsilon_at 998) EPSILON_STEP_SIZE"
    unfolding epsilon_at_def by (simp add: eval_nat_numeral)
  also have "\<dots> = Finite (5629499534213025 / 562949953421312)"
    unfolding epsilon_at_998 by (simp add: double_eval EPSILON_STEP_SIZE_value)
  finally show ?thesis .
qed

lemma epsilon_at_1000: "epsilon_at 1000 = Finite (2817564516873619 / 281474976710656)"
proof -
  have "epsilon_at 1000 = dadd (epsilon_at 999) EPSILON_STEP_SIZE"
    unfolding epsilon_at_def by (simp add: eval_nat_numeral)
  also have "\<dots> = Finite (2817564516873619 / 281474976710656)"
    unfolding epsilon_at_999 by (simp add: double_eval EPSILON_STEP_SIZE_value)
  finally show ?thesis .
qed

lemma epsilon_at_early:
  assumes "k \<le> 998"
  shows "\<exists>y. epsilon_at k = Finite y \<and> 0 < y \<and> y \<le> 1405967508669703 / 140737488355328"
proof -
  from climbs_between[OF climbs_0_998 _ assms] obtain y z where
    "Finite (1405967508669703 / 140737488355328) = Finite z" "walk (Finite (5764607523034235 / 576460752303423488)) k = Finite y"
    "5764607523034235 / 576460752303423488 \<le> y" "y \<le> z"
    by auto
  then show ?thesis unfolding epsilon_at_def EPSILON_STEP_SIZE_value by auto
qed

lemma epsilon_at_below_cap:
  assumes "k < 1000"
  shows "\<exists>y. epsilon_at k = Finite y \<and> 0 < y \<and> y < 10"
proof (cases "k \<le> 998")
  case True
  from epsilon_at_early[OF this] show ?thesis by auto
next
  case False
  with assms have k: "k = 999" by simp
  show ?thesis unfolding k epsilon_at_999 by (intro exI conjI, rule refl) simp_all
qed

lemma epsilon_at_cap:
  "k < 1000 \<Longrightarrow> dless (epsilon_at k) max_epsilon_searched"
  "\<not> dless (epsilon_at 1000) max_epsilon_searched"
  using epsilon_at_below_cap[of k] by (auto simp: max_epsilon_searched_def epsilon_at_1000)

subsection \<open>The bracket phase\<close>

lemma epsilon_at_Suc: "epsilon_at (Suc k) = dadd (epsilon_at k) EPSILON_STEP_SIZE"
  by (simp add: epsilon_at_def)

lemma linear_search_miss:
  assumes rates: "\<And>j. j < 1000 \<Longrightarrow>
      get_reduction_rate rt kdtree mesh (epsilon_at j) = Inr (rate j)"
  shows "k \<le> 1000 \<Longrightarrow> (\<And>j. k \<le> j \<Longrightarrow> j < 1000 \<Longrightarrow> \<not> dge (rate j) target) \<Longrightarrow>
    linear_search_loop rt kdtree mesh target (epsilon_at k) prev = Some (Inl AssertionFailed)"
proof (induction "1000 - k" arbitrary: k prev)
  case 0
  then have "k = 1000" by simp
  then show ?case
    by (subst linear_search_loop.simps) (simp add: epsilon_at_cap(2))
next
  case (Suc d)
  then have k: "k < 1000" by simp
  have lt: "dless (epsilon_at k) max_epsilon_searched" using k by (rule epsilon_at_cap(1))
  have low: "\<not> dge (rate k) target" using Suc.prems(2) k by simp
  have "linear_search_loop rt kdtree mesh target (epsilon_at (Suc k)) (rate k)
      = Some (Inl AssertionFailed)"
    using Suc.hyps(2) k Suc.prems(2) by (intro Suc.hyps(1)) simp_all
  moreover have "linear_search_loop rt kdtree mesh target (epsilon_at k) prev
      = linear_search_loop rt kdtree mesh target
          (dadd (epsilon_at k) EPSILON_STEP_SIZE) (rate k)"
    using lt low by (subst linear_search_loop.simps) (simp add: rates[OF k])
  ultimately show ?case by (simp only: epsilon_at_Suc)
qed

lemma linear_search_hit:
  assumes rates: "\<And>j. j < 1000 \<Longrightarrow>
      get_reduction_rate rt kdtree mesh (epsilon_at j) = Inr (rate j)"
    and k: "k < 1000" and hit: "dge (rate k) target"
  shows "k0 \<le> k \<Longrightarrow> (\<And>j. k0 \<le> j \<Longrightarrow> j < k \<Longrightarrow> \<not> dge (rate j) target) \<Longrightarrow>
    linear_search_loop rt kdtree mesh target (epsilon_at k0) prev =
      Some (Inr \<lparr>epsilon_min_boundary = dsub (epsilon_at k) EPSILON_STEP_SIZE,
                 epsilon_max_boundary = epsilon_at k,
                 reduction_rate_on_min_boundary = (if k = k0 then prev else rate (k - 1)),
                 reduction_rate_on_max_boundary = rate k\<rparr>)"
proof (induction "k - k0" arbitrary: k0 prev)
  case 0
  then have e: "k0 = k" by simp
  have lt: "dless (epsilon_at k) max_epsilon_searched" using k by (rule epsilon_at_cap(1))
  show ?case unfolding e
    using lt hit by (subst linear_search_loop.simps) (simp add: rates[OF k])
next
  case (Suc d)
  then have k0: "k0 < k" "k0 < 1000" using k by simp_all
  have lt: "dless (epsilon_at k0) max_epsilon_searched" using k0(2) by (rule epsilon_at_cap(1))
  have low: "\<not> dge (rate k0) target" using Suc.prems(2) k0 by simp
  have IH: "linear_search_loop rt kdtree mesh target (epsilon_at (Suc k0)) (rate k0) =
      Some (Inr \<lparr>epsilon_min_boundary = dsub (epsilon_at k) EPSILON_STEP_SIZE,
                 epsilon_max_boundary = epsilon_at k,
                 reduction_rate_on_min_boundary = (if k = Suc k0 then rate k0 else rate (k - 1)),
                 reduction_rate_on_max_boundary = rate k\<rparr>)"
    using Suc.hyps(2) k0 Suc.prems(2) by (intro Suc.hyps(1)) simp_all
  have pr: "(if k = Suc k0 then rate k0 else rate (k - 1)) = rate (k - 1)" by auto
  have ne: "(if k = k0 then prev else rate (k - 1)) = rate (k - 1)" using k0 by simp
  have "linear_search_loop rt kdtree mesh target (epsilon_at k0) prev
      = linear_search_loop rt kdtree mesh target
          (dadd (epsilon_at k0) EPSILON_STEP_SIZE) (rate k0)"
    using lt low by (subst linear_search_loop.simps) (simp add: rates[OF k0(2)])
  then show ?case by (simp only: epsilon_at_Suc[symmetric] IH pr ne)
qed

text \<open>
  Claim C8.  The radii of the bracket phase are \<open>epsilon_at 0 = EPSILON_STEP_SIZE\<close> and
  \<open>epsilon_at (k + 1) = epsilon_at k + EPSILON_STEP_SIZE\<close> in \<^verbatim>\<open>double\<close> arithmetic; the
  radii \<open>epsilon_at 0, \<dots>, epsilon_at 999\<close> are below the cap \<open>10.0\<close> and \<open>epsilon_at 1000\<close> is
  not, so the loop tests at most these thousand radii.  Let \<open>rate k\<close> be the reduction rate
  that the welder gives at \<open>epsilon_at k\<close>.  If none of the thousand rates compares \<^verbatim>\<open>>=\<close>
  to the target (a rate that is not a number never does), the bracket phase, and with it
  \<open>find_epsilon\<close>, ends in the failed assertion and returns no epsilon.  Otherwise, for the
  first \<open>k\<close> whose rate reaches the target, the bracket phase returns the interval from
  \<open>epsilon - EPSILON_STEP_SIZE\<close> to \<open>epsilon\<close> with the rate of the previous step (\<open>0.0\<close> at the
  first step) and the rate of this step; the upper rate reaches the target, and the lower
  rate, when it and the target are numbers and the target is not negative, is not above
  the target.
\<close>

theorem linear_search_bracket:
  assumes "\<forall>k<1000. get_reduction_rate rt kdtree mesh (epsilon_at k) = Inr (rate k)"
  shows "epsilon_at 0 = EPSILON_STEP_SIZE \<and>
         (\<forall>k. epsilon_at (Suc k) = dadd (epsilon_at k) EPSILON_STEP_SIZE) \<and>
         (\<forall>k<1000. dless (epsilon_at k) max_epsilon_searched) \<and>
         \<not> dless (epsilon_at 1000) max_epsilon_searched \<and>
         ((\<forall>k<1000. \<not> dge (rate k) target) \<longrightarrow>
            find_epsilon_range_by_linear_search rt kdtree mesh target
              = Some (Inl AssertionFailed) \<and>
            find_epsilon rt kdtree mesh target = Some (Inl AssertionFailed)) \<and>
         (\<forall>k<1000. dge (rate k) target \<and> (\<forall>j<k. \<not> dge (rate j) target) \<longrightarrow>
            find_epsilon_range_by_linear_search rt kdtree mesh target =
              Some (Inr \<lparr>epsilon_min_boundary = dsub (epsilon_at k) EPSILON_STEP_SIZE,
                         epsilon_max_boundary = epsilon_at k,
                         reduction_rate_on_min_boundary =
                           (if k = 0 then Finite 0 else rate (k - 1)),
                         reduction_rate_on_max_boundary = rate k\<rparr>) \<and>
            (\<forall>x y. (if k = 0 then Finite 0 else rate (k - 1)) = Finite x \<and>
                   target = Finite y \<and> 0 \<le> y \<longrightarrow> x \<le> y))"
proof -
  have rates: "\<And>j. j < 1000 \<Longrightarrow>
      get_reduction_rate rt kdtree mesh (epsilon_at j) = Inr (rate j)"
    using assms by simp
  have e0: "epsilon_at 0 = EPSILON_STEP_SIZE" by (simp add: epsilon_at_def)
  have miss: "find_epsilon_range_by_linear_search rt kdtree mesh target
              = Some (Inl AssertionFailed) \<and>
            find_epsilon rt kdtree mesh target = Some (Inl AssertionFailed)"
    if low: "\<forall>k<1000. \<not> dge (rate k) target"
  proof -
    have "linear_search_loop rt kdtree mesh target (epsilon_at 0) (Finite 0)
        = Some (Inl AssertionFailed)"
      using low by (intro linear_search_miss[OF rates]) simp_all
    then have m: "find_epsilon_range_by_linear_search rt kdtree mesh target
        = Some (Inl AssertionFailed)"
      by (simp add: find_epsilon_range_by_linear_search_def e0)
    then show ?thesis by (simp add: find_epsilon_def)
  qed
  have hit: "find_epsilon_range_by_linear_search rt kdtree mesh target =
              Some (Inr \<lparr>epsilon_min_boundary = dsub (epsilon_at k) EPSILON_STEP_SIZE,
                         epsilon_max_boundary = epsilon_at k,
                         reduction_rate_on_min_boundary =
                           (if k = 0 then Finite 0 else rate (k - 1)),
                         reduction_rate_on_max_boundary = rate k\<rparr>) \<and>
            (\<forall>x y. (if k = 0 then Finite 0 else rate (k - 1)) = Finite x \<and>
                   target = Finite y \<and> 0 \<le> y \<longrightarrow> x \<le> y)"
    if k: "k < 1000" and h: "dge (rate k) target \<and> (\<forall>j<k. \<not> dge (rate j) target)" for k
  proof
    have "linear_search_loop rt kdtree mesh target (epsilon_at 0) (Finite 0) =
        Some (Inr \<lparr>epsilon_min_boundary = dsub (epsilon_at k) EPSILON_STEP_SIZE,
                   epsilon_max_boundary = epsilon_at k,
                   reduction_rate_on_min_boundary = (if k = 0 then Finite 0 else rate (k - 1)),
                   reduction_rate_on_max_boundary = rate k\<rparr>)"
      using k h by (intro linear_search_hit[OF rates]) simp_all
    then show "find_epsilon_range_by_linear_search rt kdtree mesh target =
        Some (Inr \<lparr>epsilon_min_boundary = dsub (epsilon_at k) EPSILON_STEP_SIZE,
                   epsilon_max_boundary = epsilon_at k,
                   reduction_rate_on_min_boundary = (if k = 0 then Finite 0 else rate (k - 1)),
                   reduction_rate_on_max_boundary = rate k\<rparr>)"
      by (simp add: find_epsilon_range_by_linear_search_def e0)
    show "\<forall>x y. (if k = 0 then Finite 0 else rate (k - 1)) = Finite x \<and>
                   target = Finite y \<and> 0 \<le> y \<longrightarrow> x \<le> y"
    proof (intro allI impI, elim conjE)
      fix x y
      assume l: "(if k = 0 then Finite 0 else rate (k - 1)) = Finite x"
        and t: "target = Finite y" and y: "0 \<le> y"
      show "x \<le> y"
      proof (cases "k = 0")
        case True
        then show ?thesis using l y by simp
      next
        case False
        then have "k - 1 < k" by simp
        with h have "\<not> dge (rate (k - 1)) target" by blast
        then show ?thesis using l t False by (simp add: dge_def)
      qed
    qed
  qed
  show ?thesis
    using e0 epsilon_at_Suc epsilon_at_cap miss hit by blast
qed

lemma get_reduction_rate_Finite:
  "merge_vertices_forward rt kdtree eps mesh = Inr mesh' \<Longrightarrow>
    get_reduction_rate rt kdtree mesh (Finite eps) =
      Inr (ddiv (double_of_size_t (size_t_minus (length (vertices mesh)) (length (vertices mesh'))))
                (double_of_size_t (length (vertices mesh))))"
  by (simp add: get_reduction_rate_def Let_def)

lemma rate_none: "ddiv (double_of_size_t (size_t_minus 2 2)) (double_of_size_t 2) = Finite 0"
  by (simp add: size_t_minus_def double_of_size_t_def double_eval)

lemma rate_half: "ddiv (double_of_size_t (size_t_minus 2 1)) (double_of_size_t 2) = Finite (1 / 2)"
  by (simp add: size_t_minus_def double_of_size_t_def double_eval)

lemma rate_empty: "ddiv (double_of_size_t (size_t_minus 0 0)) (double_of_size_t 0) = NaN"
  by (simp add: size_t_minus_def double_of_size_t_def double_eval)

lemma two_far:
  assumes "0 < y" and "y < 1999 / 200"
  shows "\<forall>i<length [Vector3d 0 0 0, Vector3d (1999 / 200) 0 0].
         \<forall>j<length [Vector3d 0 0 0, Vector3d (1999 / 200) 0 0].
           near y [Vector3d 0 0 0, Vector3d (1999 / 200) 0 0] i j \<longrightarrow> i = j"
proof -
  have "y * y < (1999 / 200) * (1999 / 200)"
    using assms by (intro mult_strict_mono) simp_all
  then have "\<not> (1999 / 200) * (1999 / 200) \<le> y * y" by simp
  then show ?thesis
    by (simp add: near_def within_radius_code dist2_def less_Suc_eq power2_eq_square)
qed

text \<open>
  Two vertices \<open>9.995\<close> apart and the target rate \<open>1/2\<close>: the first \<open>999\<close> radii weld
  nothing, the thousandth radius \<open>9.999999999999831\<close> welds the two vertices, and the
  bracket is \<open>[9.989999999999831, 9.999999999999831]\<close> with the rates \<open>0\<close> and \<open>1/2\<close>.  For a
  mesh without vertices every rate is not a number, no rate reaches the target \<open>0\<close>, and the
  finder ends in the failed assertion.
\<close>

theorem linear_search_bracket_witness:
  "find_epsilon_range_by_linear_search sequential
      (KDTreeFlann_of (TriangleMesh_of [Vector3d 0 0 0, Vector3d (1999 / 200) 0 0] [(0, 1, 1)]))
      (TriangleMesh_of [Vector3d 0 0 0, Vector3d (1999 / 200) 0 0] [(0, 1, 1)]) (Finite (1 / 2))
     = Some (Inr \<lparr>epsilon_min_boundary = Finite (1405967508669703 / 140737488355328),
                  epsilon_max_boundary = Finite (5629499534213025 / 562949953421312),
                  reduction_rate_on_min_boundary = Finite 0,
                  reduction_rate_on_max_boundary = Finite (1 / 2)\<rparr>) \<and>
   get_reduction_rate sequential (KDTreeFlann_of (TriangleMesh_of [] []))
      (TriangleMesh_of [] []) EPSILON_STEP_SIZE = Inr NaN \<and>
   find_epsilon sequential (KDTreeFlann_of (TriangleMesh_of [] []))
      (TriangleMesh_of [] []) (Finite 0) = Some (Inl AssertionFailed)"
proof -
  let ?vs = "[Vector3d 0 0 0, Vector3d (1999 / 200) 0 0]"
  let ?m2 = "TriangleMesh_of ?vs [(0, 1, 1)]"
  let ?m0 = "TriangleMesh_of [] []"
  let ?r2 = "\<lambda>k::nat. if k < 999 then Finite 0 else Finite (1 / 2)"
  let ?r0 = "\<lambda>k::nat. NaN"
  have vs: "vertices ?m2 = ?vs" and vs0: "vertices ?m0 = []"
    by (simp_all add: TriangleMesh_of_def)
  have v2: "valid_mesh ?m2" and v0: "valid_mesh ?m0"
    by (simp_all add: valid_mesh_def valid_triangle_def TriangleMesh_of_def)
  have len2: "length (vertices ?m2) = 2" and len0: "length (vertices ?m0) = 0"
    and len1: "length (vertices (TriangleMesh_of [Vector3d (1999 / 400) 0 0] [(0, 0, 0)])) = 1"
    by (simp_all add: TriangleMesh_of_def)
  \<comment> \<open>the rates of the two-vertex mesh\<close>
  have early: "get_reduction_rate sequential (KDTreeFlann_of ?m2) ?m2 (epsilon_at k) = Inr (Finite 0)"
    if "k \<le> 998" for k
  proof -
    from epsilon_at_early[OF that] obtain y where
      e: "epsilon_at k = Finite y" and y: "0 < y" "y \<le> 1405967508669703 / 140737488355328"
      by blast
    from y have "y < 1999 / 200" by simp
    from two_far[OF y(1) this] have iso: "\<forall>i<length (vertices ?m2). \<forall>j<length (vertices ?m2).
        near y (vertices ?m2) i j \<longrightarrow> i = j"
      unfolding vs .
    have "merge_vertices_forward sequential (KDTreeFlann_of ?m2) y ?m2 = Inr ?m2"
      by (rule merge_vertices_forward_isolated[OF v2 iso])
    from get_reduction_rate_Finite[OF this] show ?thesis
      unfolding e len2 rate_none .
  qed
  have w: "merge_vertices_forward sequential (KDTreeFlann_of ?m2)
      (5629499534213025 / 562949953421312) ?m2
      = Inr (TriangleMesh_of [Vector3d (1999 / 400) 0 0] [(0, 0, 0)])"
    by code_simp
  have last: "get_reduction_rate sequential (KDTreeFlann_of ?m2) ?m2 (epsilon_at 999)
      = Inr (Finite (1 / 2))"
    using get_reduction_rate_Finite[OF w]
    unfolding epsilon_at_999 len2 len1 rate_half .
  have tot2: "\<forall>k<1000. get_reduction_rate sequential (KDTreeFlann_of ?m2) ?m2 (epsilon_at k)
      = Inr (?r2 k)"
  proof (intro allI impI)
    fix k :: nat assume "k < 1000"
    then consider "k \<le> 998" | "k = 999" by linarith
    then show "get_reduction_rate sequential (KDTreeFlann_of ?m2) ?m2 (epsilon_at k) = Inr (?r2 k)"
      using early last by cases auto
  qed
  have hit: "dge (?r2 999) (Finite (1 / 2)) \<and> (\<forall>j<999. \<not> dge (?r2 j) (Finite (1 / 2)))"
    by (simp add: dge_def)
  have k: "(999::nat) < 1000" by simp
  from linear_search_bracket[OF tot2, of "Finite (1 / 2)"] k hit
  have "find_epsilon_range_by_linear_search sequential (KDTreeFlann_of ?m2) ?m2 (Finite (1 / 2)) =
      Some (Inr \<lparr>epsilon_min_boundary = dsub (epsilon_at 999) EPSILON_STEP_SIZE,
                 epsilon_max_boundary = epsilon_at 999,
                 reduction_rate_on_min_boundary = (if (999::nat) = 0 then Finite 0 else ?r2 (999 - 1)),
                 reduction_rate_on_max_boundary = ?r2 999\<rparr>)"
    by blast
  moreover have "dsub (epsilon_at 999) EPSILON_STEP_SIZE
      = Finite (1405967508669703 / 140737488355328)"
    unfolding epsilon_at_999 by (simp add: dsub_def double_eval EPSILON_STEP_SIZE_value)
  ultimately have A: "find_epsilon_range_by_linear_search sequential (KDTreeFlann_of ?m2) ?m2
        (Finite (1 / 2))
     = Some (Inr \<lparr>epsilon_min_boundary = Finite (1405967508669703 / 140737488355328),
                  epsilon_max_boundary = Finite (5629499534213025 / 562949953421312),
                  reduction_rate_on_min_boundary = Finite 0,
                  reduction_rate_on_max_boundary = Finite (1 / 2)\<rparr>)"
    by (simp add: epsilon_at_999)
  \<comment> \<open>the mesh without vertices\<close>
  have iso0: "\<forall>i<length (vertices ?m0). \<forall>j<length (vertices ?m0).
      near y (vertices ?m0) i j \<longrightarrow> i = j" for y
    by (simp add: vs0)
  have nan: "get_reduction_rate sequential (KDTreeFlann_of ?m0) ?m0 (Finite y) = Inr NaN" for y
    using get_reduction_rate_Finite[OF merge_vertices_forward_isolated[OF v0 iso0, of sequential y]]
    unfolding len0 rate_empty .
  have tot0: "\<forall>k<1000. get_reduction_rate sequential (KDTreeFlann_of ?m0) ?m0 (epsilon_at k)
      = Inr (?r0 k)"
  proof (intro allI impI)
    fix k :: nat assume "k < 1000"
    from epsilon_at_below_cap[OF this] obtain y where "epsilon_at k = Finite y" by blast
    then show "get_reduction_rate sequential (KDTreeFlann_of ?m0) ?m0 (epsilon_at k) = Inr NaN"
      by (simp add: nan)
  qed
  have "\<forall>k<1000. \<not> dge (?r0 k) (Finite 0)" by (simp add: dge_def)
  with linear_search_bracket[OF tot0, of "Finite 0"]
  have B: "find_epsilon sequential (KDTreeFlann_of ?m0) ?m0 (Finite 0) = Some (Inl AssertionFailed)"
    by blast
  have C: "get_reduction_rate sequential (KDTreeFlann_of ?m0) ?m0 EPSILON_STEP_SIZE = Inr NaN"
    unfolding EPSILON_STEP_SIZE_value by (rule nan)
  from A C B show ?thesis by (intro conjI)
qed

end
